theory Spec2Isabelle
  imports Complex_Main "HOL-Library.Word"
begin

section \<open>Data model\<close>

text \<open>
  The steganographic codec of \<open>main.py\<close>: the framing of a payload into a bitstream
  (\<open>_payload_to_bitstream\<close>, \<open>_bitstream_to_payload\<close>), the quantisation of one DCT
  coefficient per 8 by 8 block to carry one bit, and the loops of \<open>embed\<close> and \<open>extract\<close>
  over the blocks of the frames of a video.  File and video input and output are left out:
  a payload is the list of its bytes, a video the list of its frames.
\<close>

text \<open>
  A Python \<open>bytes\<close>/\<open>bytearray\<close> value is a list of 8-bit words.  The bitstream of the
  source is a Python string over the two characters \<open>'0'\<close> and \<open>'1'\<close> (it is only ever
  produced by \<open>format(byte, '08b')\<close> and by appending \<open>'0'\<close> or \<open>'1'\<close>); it is a list of
  booleans here, \<open>False\<close> for \<open>'0'\<close> and \<open>True\<close> for \<open>'1'\<close>.
\<close>

type_synonym byte = "8 word"
type_synonym bitstream = "bool list"

text \<open>\<open>MARKER = b'VCiph_START'\<close>\<close>

definition MARKER :: "byte list" where
  "MARKER = [0x56, 0x43, 0x69, 0x70, 0x68, 0x5F, 0x53, 0x54, 0x41, 0x52, 0x54]"

text \<open>\<open>QUANTIZATION_STEP = 4\<close> and \<open>DCT_COORDINATE = (2, 1)\<close>\<close>

definition QUANTIZATION_STEP :: real where
  "QUANTIZATION_STEP = 4"

definition DCT_COORDINATE :: "nat \<times> nat" where
  "DCT_COORDINATE = (2, 1)"

text \<open>
  The failures of the source.  \<open>_bitstream_to_payload\<close> prints a message and returns
  \<open>False\<close> in three places; \<open>int.to_bytes\<close> raises \<open>OverflowError\<close>.
\<close>

datatype error =
    OverflowError        \<comment> \<open>\<open>len(payload_data).to_bytes(4, ...)\<close> with a length of 2^32 or more\<close>
  | IncompleteHeader     \<comment> \<open>"Not enough data extracted to read header."\<close>
  | MarkerMismatch       \<comment> \<open>"Marker not found!"\<close>
  | TruncatedPayload     \<comment> \<open>"Payload incomplete."\<close>

section \<open>Framing codec\<close>

text \<open>\<open>format(byte, '08b')\<close>: the eight binary digits of a byte, most significant first.\<close>

definition format_08b :: "byte \<Rightarrow> bitstream" where
  "format_08b b = map (\<lambda>k. odd (unat b div 2 ^ k)) (rev [0..<8])"

text \<open>\<open>int(s, 2)\<close> on a string of binary digits.\<close>

definition int2 :: "bitstream \<Rightarrow> nat" where
  "int2 s = foldl (\<lambda>a d. 2 * a + (if d then 1 else 0)) 0 s"

text \<open>\<open>n.to_bytes(4, byteorder='big')\<close>\<close>

definition to_bytes4 :: "nat \<Rightarrow> error + byte list" where
  "to_bytes4 n =
     (if n < 2 ^ 32
      then Inr [of_nat (n div 2 ^ 24), of_nat (n div 2 ^ 16), of_nat (n div 2 ^ 8), of_nat n]
      else Inl OverflowError)"

text \<open>\<open>int.from_bytes(bs, byteorder='big')\<close>\<close>

definition from_bytes :: "byte list \<Rightarrow> nat" where
  "from_bytes bs = foldl (\<lambda>a b. 256 * a + unat b) 0 bs"

text \<open>\<open>''.join(format(byte, '08b') for byte in full_data)\<close>\<close>

definition bytes_to_bits :: "byte list \<Rightarrow> bitstream" where
  "bytes_to_bits bs = concat (map format_08b bs)"

text \<open>
  \<open>bytearray(int(bitstream[i:i+8], 2) for i in range(0, len(bitstream), 8))\<close>: the stream
  is cut into chunks of eight digits; a last chunk of fewer than eight digits still gives a
  byte.
\<close>

fun bits_to_bytes :: "bitstream \<Rightarrow> byte list" where
  "bits_to_bytes [] = []"
| "bits_to_bytes (d # ds) = of_nat (int2 (take 8 (d # ds))) # bits_to_bytes (drop 8 (d # ds))"

text \<open>
  \<open>_payload_to_bitstream\<close>, from the bytes read from the payload file to the bitstream.
\<close>

definition payload_to_bitstream :: "byte list \<Rightarrow> error + bitstream" where
  "payload_to_bitstream payload_data =
     (case to_bytes4 (length payload_data) of
        Inl e \<Rightarrow> Inl e
      | Inr payload_length_bytes \<Rightarrow>
          let header = MARKER @ payload_length_bytes;
              full_data = header @ payload_data
          in Inr (bytes_to_bits full_data))"

text \<open>
  \<open>_bitstream_to_payload\<close>: \<open>Inr payload_data\<close> stands for the payload written to the
  output file and the return value \<open>True\<close>, \<open>Inl e\<close> for the message printed and the return
  value \<open>False\<close>.
\<close>

definition bitstream_to_payload :: "bitstream \<Rightarrow> error + byte list" where
  "bitstream_to_payload bitstream =
     (let byte_array = bits_to_bytes bitstream;
          marker_len = length MARKER;
          header_len = marker_len + 4
      in if length byte_array < header_len then Inl IncompleteHeader
         else let extracted_marker = take marker_len byte_array
         in if extracted_marker \<noteq> MARKER then Inl MarkerMismatch
         else let length_bytes = take (header_len - marker_len) (drop marker_len byte_array);
                  payload_length = from_bytes length_bytes;
                  payload_data = take payload_length (drop header_len byte_array)
         in if length payload_data \<noteq> payload_length then Inl TruncatedPayload
            else Inr payload_data)"

section \<open>Bit codec\<close>

text \<open>
  Python's \<open>round\<close> with one argument: to the nearest integer, a tie to the even one.
  Coefficients are \<open>float32\<close> values in the source; they are exact reals here.
\<close>

definition py_round :: "real \<Rightarrow> int" where
  "py_round x =
     (let f = \<lfloor>x\<rfloor>; d = x - of_int f
      in if d < 1 / 2 then f
         else if 1 / 2 < d then f + 1
         else if even f then f else f + 1)"

text \<open>Lines 80 to 84 of \<open>embed\<close>: the value stored at the designated coefficient.\<close>

definition encode :: "real \<Rightarrow> bool \<Rightarrow> real" where
  "encode coeff bit_to_embed =
     (let q = QUANTIZATION_STEP
      in if \<not> bit_to_embed then of_int (py_round (coeff / q)) * q
         else of_int (py_round ((coeff - q / 2) / q)) * q + q / 2)"

text \<open>Lines 135 to 140 of \<open>extract\<close>: the bit read from a coefficient.\<close>

definition nearest_zero :: "real \<Rightarrow> real" where
  "nearest_zero coeff = of_int (py_round (coeff / QUANTIZATION_STEP)) * QUANTIZATION_STEP"

definition nearest_one :: "real \<Rightarrow> real" where
  "nearest_one coeff =
     of_int (py_round ((coeff - QUANTIZATION_STEP / 2) / QUANTIZATION_STEP)) * QUANTIZATION_STEP
       + QUANTIZATION_STEP / 2"

definition decode :: "real \<Rightarrow> bool" where
  "decode coeff =
     (let dist_to_zero = \<bar>coeff - nearest_zero coeff\<bar>;
          dist_to_one = \<bar>coeff - nearest_one coeff\<bar>
      in \<not> (dist_to_zero \<le> dist_to_one))"

section \<open>Frames, blocks and the transform\<close>

text \<open>
  A frame is modelled by its luminance plane \<open>y_channel\<close>: a list of rows of \<open>uint8\<close>
  samples.  The video container and the colour conversion around it are outside the
  codec; a written frame is read back as it was written.  \<open>width\<close> and \<open>height\<close> are
  the properties of the capture, the same for every frame.

  \<open>cv2.dct\<close> and \<open>cv2.idct\<close> are the transform primitive of the codec.  The functions
  below take them as the parameters \<open>dct\<close> and \<open>idct\<close>, maps on blocks of reals;
  \<open>cv2_dct\<close> and \<open>cv2_idct\<close> further down are the transforms of the library.
\<close>

type_synonym plane = "nat list list"
type_synonym block = "real list list"
type_synonym transform = "block \<Rightarrow> block"

text \<open>\<open>range(0, n, 8)\<close>\<close>

definition range8 :: "nat \<Rightarrow> nat list" where
  "range8 n = map (\<lambda>k. 8 * k) [0..<(n + 7) div 8]"

text \<open>The slice \<open>y_channel[i:i+8, j:j+8]\<close>, cut short at the edges of the plane.\<close>

definition get_block :: "plane \<Rightarrow> nat \<Rightarrow> nat \<Rightarrow> nat list list" where
  "get_block y i j = map (\<lambda>row. take 8 (drop j row)) (take 8 (drop i y))"

text \<open>
  The assignment \<open>y_channel[i:i+8, j:j+8] = m\<close>.  In the source \<open>m\<close> always has the shape
  of the slice it replaces (it is computed from that slice by operations that keep the
  shape); samples outside the slice keep their value.
\<close>

definition set_block :: "plane \<Rightarrow> nat \<Rightarrow> nat \<Rightarrow> nat list list \<Rightarrow> plane" where
  "set_block y i j m =
     map (\<lambda>r. if i \<le> r \<and> r < i + 8
              then map (\<lambda>c. if j \<le> c \<and> c < j + 8 then m ! (r - i) ! (c - j) else y ! r ! c)
                     [0..<length (y ! r)]
              else y ! r)
       [0..<length y]"

text \<open>\<open>block.astype(np.float32)\<close>\<close>

definition astype_float32 :: "nat list list \<Rightarrow> block" where
  "astype_float32 b = map (map real) b"

text \<open>
  \<open>np.clip(b, 0, 255).astype(np.uint8)\<close>: the cast drops the fractional part of a value
  that the clip has already brought into the range of a byte.
\<close>

definition clip_astype_uint8 :: "block \<Rightarrow> nat list list" where
  "clip_astype_uint8 b = map (map (\<lambda>x. nat \<lfloor>min (max x 0) 255\<rfloor>)) b"

text \<open>
  \<open>dct_block[DCT_COORDINATE]\<close>, read and assigned.  The index is in range for every block
  of at least three rows and two columns, so for every block of a frame whose width and
  height are multiples of 8; on a smaller block at the edge of another frame the source
  raises \<open>IndexError\<close>, which is not modelled.  The theorems below are about frames whose
  width and height are multiples of 8, by hypothesis or by the choice of the frames.
\<close>

definition coeff_at :: "block \<Rightarrow> real" where
  "coeff_at dct_block = dct_block ! fst DCT_COORDINATE ! snd DCT_COORDINATE"

definition coeff_update :: "block \<Rightarrow> real \<Rightarrow> block" where
  "coeff_update dct_block v =
     dct_block[fst DCT_COORDINATE := (dct_block ! fst DCT_COORDINATE)[snd DCT_COORDINATE := v]]"

section \<open>Embedder\<close>

text \<open>Lines 76 to 86 of \<open>embed\<close>: the block written back for one bit.\<close>

definition embed_block :: "transform \<Rightarrow> transform \<Rightarrow> bool \<Rightarrow> nat list list \<Rightarrow> nat list list" where
  "embed_block dct idct bit_to_embed block_uint8 =
     (let block_float32 = astype_float32 block_uint8;
          dct_block = dct block_float32;
          coeff = coeff_at dct_block;
          dct_block' = coeff_update dct_block (encode coeff bit_to_embed);
          idct_block_float32 = idct dct_block'
      in clip_astype_uint8 idct_block_float32)"

text \<open>
  The state of the embedding loops: what is left of \<open>bitstream_iterator\<close>, the counter
  \<open>bits_embedded\<close> and the flag \<open>embedding_complete\<close>.
\<close>

record embed_state =
  bitstream_iterator :: bitstream
  bits_embedded :: nat
  embedding_complete :: bool

text \<open>
  The loop \<open>for j in range(0, width, 8)\<close>: \<open>next(bitstream_iterator)\<close> raising
  \<open>StopIteration\<close> sets the flag and leaves the loop.
\<close>

fun embed_row :: "transform \<Rightarrow> transform \<Rightarrow> nat \<Rightarrow> nat list \<Rightarrow> plane \<Rightarrow> embed_state
    \<Rightarrow> plane \<times> embed_state" where
  "embed_row dct idct i [] y st = (y, st)"
| "embed_row dct idct i (j # js) y st =
     (case bitstream_iterator st of
        [] \<Rightarrow> (y, st\<lparr>embedding_complete := True\<rparr>)
      | bit_to_embed # rest \<Rightarrow>
          embed_row dct idct i js
            (set_block y i j (embed_block dct idct bit_to_embed (get_block y i j)))
            (st\<lparr>bitstream_iterator := rest, bits_embedded := bits_embedded st + 1\<rparr>))"

text \<open>The loop \<open>for i in range(0, height, 8)\<close>, left once the flag is set.\<close>

fun embed_rows :: "transform \<Rightarrow> transform \<Rightarrow> nat \<Rightarrow> nat list \<Rightarrow> plane \<Rightarrow> embed_state
    \<Rightarrow> plane \<times> embed_state" where
  "embed_rows dct idct width [] y st = (y, st)"
| "embed_rows dct idct width (i # is) y st =
     (case embed_row dct idct i (range8 width) y st of
        (y', st') \<Rightarrow>
          if embedding_complete st' then (y', st')
          else embed_rows dct idct width is y' st')"

text \<open>
  The loop \<open>while True\<close> over the frames of the capture; the result holds the frames handed
  to the writer, in order.
\<close>

fun embed_frames :: "transform \<Rightarrow> transform \<Rightarrow> nat \<Rightarrow> nat \<Rightarrow> plane list \<Rightarrow> embed_state
    \<Rightarrow> plane list \<times> embed_state" where
  "embed_frames dct idct width height [] st = ([], st)"
| "embed_frames dct idct width height (frame # frames) st =
     (if \<not> embedding_complete st
      then (case embed_rows dct idct width (range8 height) frame st of
              (y_channel, st') \<Rightarrow>
                (case embed_frames dct idct width height frames st' of
                   (written, st'') \<Rightarrow> (y_channel # written, st'')))
      else (case embed_frames dct idct width height frames st of
              (written, st'') \<Rightarrow> (frame # written, st'')))"

text \<open>
  \<open>embed\<close>: the frames written to the output video and the final state of the loops.  The
  warning of line 103 is printed when \<open>embedding_complete\<close> is still false at the end.
\<close>

definition embed :: "transform \<Rightarrow> transform \<Rightarrow> nat \<Rightarrow> nat \<Rightarrow> plane list \<Rightarrow> byte list
    \<Rightarrow> error + plane list \<times> embed_state" where
  "embed dct idct width height frames payload_data =
     (case payload_to_bitstream payload_data of
        Inl e \<Rightarrow> Inl e
      | Inr bitstream \<Rightarrow>
          Inr (embed_frames dct idct width height frames
                 \<lparr>bitstream_iterator = bitstream, bits_embedded = 0, embedding_complete = False\<rparr>))"

section \<open>Extractor\<close>

text \<open>Lines 132 to 140 of \<open>extract\<close>: the bit read from the block at \<open>(i, j)\<close>.\<close>

definition block_bit :: "transform \<Rightarrow> plane \<Rightarrow> nat \<Rightarrow> nat \<Rightarrow> bool" where
  "block_bit dct y_channel i j =
     (let block_float32 = astype_float32 (get_block y_channel i j);
          dct_block = dct block_float32;
          coeff = coeff_at dct_block
      in decode coeff)"

definition header_len_bits :: nat where
  "header_len_bits = (length MARKER + 4) * 8"

text \<open>
  The state of the extraction loops: \<open>extracted_bits\<close>, \<open>total_bits_to_extract\<close> (\<open>None\<close>
  until the header is parsed) and the flag \<open>extraction_failed\<close>.  One bit is appended for
  each block decoded, so the length of \<open>extracted_bits\<close> is the number of blocks decoded.
\<close>

record extract_state =
  extracted_bits :: bitstream
  total_bits_to_extract :: "nat option"
  extraction_failed :: bool

text \<open>
  The test \<open>total_bits_to_extract and len(extracted_bits) >= total_bits_to_extract\<close> of
  lines 158 and 160.
\<close>

definition enough_bits :: "extract_state \<Rightarrow> bool" where
  "enough_bits st =
     (case total_bits_to_extract st of
        None \<Rightarrow> False
      | Some t \<Rightarrow> t \<noteq> 0 \<and> t \<le> length (extracted_bits st))"

text \<open>
  Lines 140 to 159: the bit is appended, the header is parsed once enough bits are there,
  and the second component tells whether the loop over \<open>j\<close> is left by \<open>break\<close>.
\<close>

definition append_bit :: "bool \<Rightarrow> extract_state \<Rightarrow> extract_state \<times> bool" where
  "append_bit b st =
     (let st1 = st\<lparr>extracted_bits := extracted_bits st @ [b]\<rparr>
      in if total_bits_to_extract st1 = None \<and> header_len_bits \<le> length (extracted_bits st1)
         then let header_bytes = bits_to_bytes (extracted_bits st1)
              in if take (length MARKER) header_bytes \<noteq> MARKER
                 then (st1\<lparr>extraction_failed := True\<rparr>, True)
                 else let payload_len = from_bytes (take 4 (drop (length MARKER) header_bytes));
                          st2 = st1\<lparr>total_bits_to_extract := Some (header_len_bits + payload_len * 8)\<rparr>
                      in (st2, enough_bits st2)
         else (st1, enough_bits st1))"

text \<open>The loop \<open>for j in range(0, width, 8)\<close> of \<open>extract\<close>.\<close>

fun extract_row :: "transform \<Rightarrow> plane \<Rightarrow> nat \<Rightarrow> nat list \<Rightarrow> extract_state \<Rightarrow> extract_state" where
  "extract_row dct y i [] st = st"
| "extract_row dct y i (j # js) st =
     (case append_bit (block_bit dct y i j) st of
        (st', left) \<Rightarrow> if left then st' else extract_row dct y i js st')"

text \<open>The loop \<open>for i in range(0, height, 8)\<close> of \<open>extract\<close>, with the test of line 160.\<close>

fun extract_rows :: "transform \<Rightarrow> nat \<Rightarrow> plane \<Rightarrow> nat list \<Rightarrow> extract_state \<Rightarrow> extract_state" where
  "extract_rows dct width y [] st = st"
| "extract_rows dct width y (i # is) st =
     (let st' = extract_row dct y i (range8 width) st
      in if extraction_failed st' \<or> enough_bits st' then st'
         else extract_rows dct width y is st')"

text \<open>
  The loop \<open>while True\<close> of \<open>extract\<close>.  Its only exit is the \<open>break\<close> of line 126, taken
  when \<open>cap.read()\<close> has no frame left: the \<open>break\<close> of line 161 leaves the loop over \<open>i\<close>,
  and the next frame is read.
\<close>

fun extract_frames :: "transform \<Rightarrow> nat \<Rightarrow> nat \<Rightarrow> plane list \<Rightarrow> extract_state \<Rightarrow> extract_state" where
  "extract_frames dct width height [] st = st"
| "extract_frames dct width height (frame # frames) st =
     extract_frames dct width height frames (extract_rows dct width frame (range8 height) st)"

definition extract_scan :: "transform \<Rightarrow> nat \<Rightarrow> nat \<Rightarrow> plane list \<Rightarrow> extract_state" where
  "extract_scan dct width height frames =
     extract_frames dct width height frames
       \<lparr>extracted_bits = [], total_bits_to_extract = None, extraction_failed = False\<rparr>"

text \<open>
  \<open>extract\<close> (the name is a keyword of Isabelle, hence \<open>extract_fn\<close>): lines 166 to 168.
  With \<open>extraction_failed\<close> set nothing is written, which is \<open>Inl MarkerMismatch\<close> here;
  otherwise the result is that of \<open>_bitstream_to_payload\<close> on all the bits collected.
\<close>

definition extract_fn :: "transform \<Rightarrow> nat \<Rightarrow> nat \<Rightarrow> plane list \<Rightarrow> error + byte list" where
  "extract_fn dct width height frames =
     (let st = extract_scan dct width height frames
      in if \<not> extraction_failed st then bitstream_to_payload (extracted_bits st)
         else Inl MarkerMismatch)"

section \<open>The transform of the library\<close>

text \<open>
  \<open>cv2.dct\<close> and \<open>cv2.idct\<close> on a two-dimensional array, after the documentation of
  OpenCV: the orthonormal cosine transform of type II along both axes, and its inverse,
  over exact reals.  The library computes in \<open>float32\<close>; its rounding errors, of the order
  of \<open>1e-5\<close> on the samples of a byte plane, are not modelled.  They can change the byte
  that the cast of line 86 gives where the exact sample is an integer, as in a block
  whose coefficient is left as it was; in the blocks evaluated below for a bit 1 every
  sample is more than 1/30 away from an integer before the clip and the cast.
\<close>

definition dct_basis :: "nat \<Rightarrow> nat \<Rightarrow> nat \<Rightarrow> real" where
  "dct_basis n u i =
     (if u = 0 then sqrt (1 / real n) else sqrt (2 / real n))
       * cos (real (2 * i + 1) * real u * pi / real (2 * n))"

definition cv2_dct :: transform where
  "cv2_dct x =
     (let n = length x; m = length (hd x)
      in map (\<lambda>u. map (\<lambda>v. \<Sum>i\<leftarrow>[0..<n]. \<Sum>j\<leftarrow>[0..<m].
                 dct_basis n u i * dct_basis m v j * x ! i ! j) [0..<m]) [0..<n])"

definition cv2_idct :: transform where
  "cv2_idct y =
     (let n = length y; m = length (hd y)
      in map (\<lambda>i. map (\<lambda>j. \<Sum>u\<leftarrow>[0..<n]. \<Sum>v\<leftarrow>[0..<m].
                 dct_basis n u i * dct_basis m v j * y ! u ! v) [0..<m]) [0..<n])"

section \<open>Notions used in the proofs\<close>

text \<open>
  The block coordinates of a frame in the order of the two loops, the bits read from a
  frame when no \<open>break\<close> is taken, and the loops of \<open>extract\<close> over the bits instead of the
  blocks.
\<close>

definition positions :: "nat \<Rightarrow> nat \<Rightarrow> (nat \<times> nat) list" where
  "positions width height = concat (map (\<lambda>i. map (\<lambda>j. (i, j)) (range8 width)) (range8 height))"

definition frame_bits :: "transform \<Rightarrow> nat \<Rightarrow> nat \<Rightarrow> plane \<Rightarrow> bitstream" where
  "frame_bits dct width height y =
     concat (map (\<lambda>i. map (\<lambda>j. block_bit dct y i j) (range8 width)) (range8 height))"

text \<open>The second component tells whether the scan of the frame was left by \<open>break\<close>.\<close>

fun scan_bits :: "bitstream \<Rightarrow> extract_state \<Rightarrow> extract_state \<times> bool" where
  "scan_bits [] st = (st, False)"
| "scan_bits (b # bs) st =
     (case append_bit b st of (st', left) \<Rightarrow> if left then (st', True) else scan_bits bs st')"

fun scan_frames :: "bitstream list \<Rightarrow> extract_state \<Rightarrow> extract_state" where
  "scan_frames [] st = st"
| "scan_frames (bs # bss) st = scan_frames bss (fst (scan_bits bs st))"

text \<open>
  The state after a failed marker check: the header was never parsed, and the marker check
  fails again on every longer accumulator.
\<close>

definition marker_failed :: "extract_state \<Rightarrow> bool" where
  "marker_failed st \<longleftrightarrow>
     total_bits_to_extract st = None \<and> header_len_bits \<le> length (extracted_bits st) \<and>
     take (length MARKER) (bits_to_bytes (extracted_bits st)) \<noteq> MARKER"

definition consistent :: "extract_state \<Rightarrow> bool" where
  "consistent st \<longleftrightarrow> (extraction_failed st \<longrightarrow> marker_failed st)"

text \<open>A plane of \<open>height\<close> rows of \<open>width\<close> samples each.\<close>

definition frame_ok :: "nat \<Rightarrow> nat \<Rightarrow> 'a list list \<Rightarrow> bool" where
  "frame_ok width height y \<longleftrightarrow> length y = height \<and> (\<forall>row \<in> set y. length row = width)"

text \<open>
  The loops of \<open>embed\<close> as a sequence of block writes: the blocks of a frame paired with
  the bits still to embed, and the state of the loops after \<open>n\<close> blocks were visited.
\<close>

fun write_blocks :: "transform \<Rightarrow> transform \<Rightarrow> ((nat \<times> nat) \<times> bool) list \<Rightarrow> plane \<Rightarrow> plane" where
  "write_blocks dct idct [] y = y"
| "write_blocks dct idct (((i, j), b) # zs) y =
     write_blocks dct idct zs (set_block y i j (embed_block dct idct b (get_block y i j)))"

fun write_frames :: "transform \<Rightarrow> transform \<Rightarrow> nat \<Rightarrow> nat \<Rightarrow> plane list \<Rightarrow> bitstream \<Rightarrow> plane list" where
  "write_frames dct idct width height [] bits = []"
| "write_frames dct idct width height (frame # frames) bits =
     write_blocks dct idct (zip (positions width height) bits) frame
       # write_frames dct idct width height frames (drop (length (positions width height)) bits)"

definition advance :: "nat \<Rightarrow> embed_state \<Rightarrow> embed_state" where
  "advance n st =
     st\<lparr>bitstream_iterator := drop n (bitstream_iterator st),
        bits_embedded := bits_embedded st + min n (length (bitstream_iterator st)),
        embedding_complete := embedding_complete st \<or> length (bitstream_iterator st) < n\<rparr>"

section \<open>Test frames\<close>

text \<open>
  An 8 by 8 plane that is one block: all samples 0, but the first, which is 8 for a block
  that reads as bit 1 under \<open>cv2_dct\<close> and 0 for one that reads as bit 0.
\<close>

definition carrier_plane :: "bool \<Rightarrow> plane" where
  "carrier_plane b = ((if b then 8 else 0) # replicate 7 0) # replicate 7 (replicate 8 0)"

text \<open>A plane of \<open>height\<close> rows of \<open>width\<close> samples, all of the value \<open>v\<close>.\<close>

definition flat_plane :: "nat \<Rightarrow> nat \<Rightarrow> nat \<Rightarrow> plane" where
  "flat_plane width height v = replicate height (replicate width v)"

text \<open>
  The 8 by 8 plane that \<open>embed\<close> writes, under the transforms of the library, for a bit 1
  into the grey plane \<open>flat_plane 8 8 128\<close>: the samples that the new coefficient moves
  down are one lower.
\<close>

definition dented_plane :: plane where
  "dented_plane =
     [[128, 128, 128, 128, 127, 127, 127, 127],
      [128, 128, 128, 128, 127, 127, 127, 127],
      [127, 127, 127, 127, 128, 128, 128, 128],
      [127, 127, 127, 127, 128, 128, 128, 128],
      [127, 127, 127, 127, 128, 128, 128, 128],
      [127, 127, 127, 127, 128, 128, 128, 128],
      [128, 128, 128, 128, 127, 127, 127, 127],
      [128, 128, 128, 128, 127, 127, 127, 127]]"

section \<open>Properties of the framing codec\<close>

lemma int2_Nil: "int2 [] = 0"
  by (simp add: int2_def)

lemma int2_snoc: "int2 (xs @ [d]) = 2 * int2 xs + (if d then 1 else 0)"
  by (simp add: int2_def)

lemma int2_less: "int2 xs < 2 ^ length xs"
  by (induction xs rule: rev_induct) (simp_all add: int2_Nil int2_snoc)

lemma map_rev_upt_Suc: "map f (rev [0..<Suc m]) = map (\<lambda>k. f (Suc k)) (rev [0..<m]) @ [f 0]"
proof -
  have "[0..<Suc m] = 0 # map Suc [0..<m]"
    by (simp add: upt_conv_Cons map_Suc_upt del: upt_Suc)
  then show ?thesis
    by (simp add: rev_map comp_def del: upt_Suc)
qed

lemma div_shift: "(2 * a + (if d then 1 else 0)) div 2 ^ Suc k = a div 2 ^ k" for a :: nat
proof -
  have "(2 * a + (if d then 1 else 0)) div 2 = a" by simp
  then show ?thesis
    using div_mult2_eq [of "2 * a + (if d then 1 else 0)" 2 "2 ^ k"] by simp
qed

lemma digits_int2:
  "map (\<lambda>k. odd (int2 xs div 2 ^ k)) (rev [0..<length xs]) = xs"
proof (induction xs rule: rev_induct)
  case Nil
  then show ?case by simp
next
  case (snoc d xs)
  have "map (\<lambda>k. odd (int2 (xs @ [d]) div 2 ^ k)) (rev [0..<Suc (length xs)])
      = map (\<lambda>k. odd (int2 (xs @ [d]) div 2 ^ Suc k)) (rev [0..<length xs]) @ [odd (int2 (xs @ [d]) div 2 ^ 0)]"
    by (rule map_rev_upt_Suc)
  also have "\<dots> = map (\<lambda>k. odd (int2 xs div 2 ^ k)) (rev [0..<length xs]) @ [d]"
    unfolding int2_snoc div_shift by simp
  finally show ?case using snoc by simp
qed

lemma int2_digits: "int2 (map (\<lambda>k. odd (n div 2 ^ k)) (rev [0..<m])) = n mod 2 ^ m"
proof (induction m arbitrary: n)
  case 0
  then show ?case by (simp add: int2_Nil)
next
  case (Suc m)
  have "int2 (map (\<lambda>k. odd (n div 2 ^ k)) (rev [0..<Suc m]))
      = int2 (map (\<lambda>k. odd (n div 2 ^ Suc k)) (rev [0..<m]) @ [odd (n div 2 ^ 0)])"
    by (simp only: map_rev_upt_Suc)
  also have "\<dots> = 2 * int2 (map (\<lambda>k. odd (n div 2 div 2 ^ k)) (rev [0..<m])) + (if odd n then 1 else 0)"
    by (simp add: int2_snoc div_mult2_eq)
  also have "\<dots> = 2 * (n div 2 mod 2 ^ m) + n mod 2"
    by (simp only: Suc [of "n div 2"]) (cases "odd n"; simp add: odd_iff_mod_2_eq_one)
  also have "\<dots> = n mod 2 ^ Suc m"
    using mod_mult2_eq [of n 2 "2 ^ m"] by simp
  finally show ?case .
qed

lemma length_format_08b: "length (format_08b b) = 8"
  by (simp add: format_08b_def)

lemma int2_format_08b: "int2 (format_08b b) = unat b"
proof -
  have "unat b < 2 ^ 8" using unsigned_less [of b, where ?'a = nat] by simp
  then show ?thesis by (simp add: format_08b_def int2_digits)
qed

lemma format_08b_int2:
  assumes "length xs = 8"
  shows "format_08b (of_nat (int2 xs)) = xs"
proof -
  have "int2 xs < 2 ^ 8" using int2_less [of xs] assms by simp
  then have "unat (of_nat (int2 xs) :: byte) = int2 xs"
    by (simp add: unat_of_nat)
  then show ?thesis
    using digits_int2 [of xs] assms by (simp add: format_08b_def)
qed

lemma bits_to_bytes_unfold:
  "bs \<noteq> [] \<Longrightarrow> bits_to_bytes bs = of_nat (int2 (take 8 bs)) # bits_to_bytes (drop 8 bs)"
  by (cases bs) simp_all

lemma bits_to_bytes_format:
  "bits_to_bytes (format_08b b @ rest) = b # bits_to_bytes rest"
proof -
  have "format_08b b @ rest \<noteq> []"
    using length_format_08b [of b] by auto
  then show ?thesis
    by (simp add: bits_to_bytes_unfold length_format_08b int2_format_08b)
qed

lemma bits_to_bytes_append:
  "bits_to_bytes (bytes_to_bits bs @ rest) = bs @ bits_to_bytes rest"
  by (induction bs) (simp_all add: bytes_to_bits_def bits_to_bytes_format)

lemma bits_to_bytes_inverse: "bits_to_bytes (bytes_to_bits bs) = bs"
  using bits_to_bytes_append [of bs "[]"] by simp

lemma length_bytes_to_bits: "length (bytes_to_bits bs) = 8 * length bs"
  by (induction bs) (simp_all add: bytes_to_bits_def length_format_08b)

lemma bytes_to_bits_append: "bytes_to_bits (xs @ ys) = bytes_to_bits xs @ bytes_to_bits ys"
  by (simp add: bytes_to_bits_def)

lemma length_bits_to_bytes: "length (bits_to_bytes bs) = (length bs + 7) div 8"
proof (induction bs rule: bits_to_bytes.induct)
  case 1
  then show ?case by simp
next
  case (2 d ds)
  then show ?case by simp
qed

lemma bits_to_bytes_take: "take n (bits_to_bytes bs) = bits_to_bytes (take (8 * n) bs)"
proof (induction bs arbitrary: n rule: bits_to_bytes.induct)
  case 1
  then show ?case by simp
next
  case (2 d ds)
  show ?case
  proof (cases n)
    case 0
    then show ?thesis by simp
  next
    case (Suc m)
    have ne: "take (8 * Suc m) (d # ds) \<noteq> []" by simp
    have t: "take 8 (take (8 * Suc m) (d # ds)) = take 8 (d # ds)"
      by (simp add: min_def)
    have dr: "drop 8 (take (8 * Suc m) (d # ds)) = take (8 * m) (drop 8 (d # ds))"
      by (simp add: drop_take)
    show ?thesis
      unfolding Suc bits_to_bytes_unfold [OF ne] t dr
      using "2.IH" [of m] by simp
  qed
qed

lemma bits_to_bytes_drop: "drop n (bits_to_bytes bs) = bits_to_bytes (drop (8 * n) bs)"
proof (induction bs arbitrary: n rule: bits_to_bytes.induct)
  case 1
  then show ?case by simp
next
  case (2 d ds)
  show ?case
  proof (cases n)
    case 0
    then show ?thesis by simp
  next
    case (Suc m)
    have "drop (Suc m) (bits_to_bytes (d # ds)) = drop m (bits_to_bytes (drop 8 (d # ds)))"
      by simp
    also have "\<dots> = bits_to_bytes (drop (8 * m) (drop 8 (d # ds)))"
      by (rule "2.IH")
    also have "drop (8 * m) (drop 8 (d # ds)) = drop (8 * Suc m) (d # ds)"
      by (simp only: drop_drop mult_Suc_right add.commute)
    finally show ?thesis unfolding Suc .
  qed
qed

lemma bytes_to_bits_inverse:
  assumes "8 dvd length xs"
  shows "bytes_to_bits (bits_to_bytes xs) = xs"
  using assms
proof (induction xs rule: bits_to_bytes.induct)
  case 1
  then show ?case by (simp add: bytes_to_bits_def)
next
  case (2 d ds)
  from "2.prems" obtain k where k: "length (d # ds) = 8 * k" by (auto simp: dvd_def)
  then have k0: "k \<noteq> 0" by auto
  then have "8 \<le> 8 * k" by simp
  then have ge: "8 \<le> length (d # ds)" by (simp only: k)
  have l8: "length (take 8 (d # ds)) = 8"
    by (simp only: length_take min_absorb2 ge)
  have "length (drop 8 (d # ds)) = 8 * (k - 1)"
    by (simp only: length_drop k)
  then have "8 dvd length (drop 8 (d # ds))"
    by (simp only: dvd_triv_left)
  then have ih: "bytes_to_bits (bits_to_bytes (drop 8 (d # ds))) = drop 8 (d # ds)"
    by (rule "2.IH")
  have "bytes_to_bits (bits_to_bytes (d # ds))
      = format_08b (of_nat (int2 (take 8 (d # ds)))) @ bytes_to_bits (bits_to_bytes (drop 8 (d # ds)))"
    by (simp add: bytes_to_bits_def)
  also have "\<dots> = take 8 (d # ds) @ drop 8 (d # ds)"
    by (simp only: format_08b_int2 [OF l8] ih)
  finally show ?case by (simp del: take_Suc_Cons drop_Suc_Cons)
qed

lemma from_bytes_to_bytes4:
  assumes "n < 2 ^ 32"
  shows "\<exists>bs. to_bytes4 n = Inr bs \<and> length bs = 4 \<and> from_bytes bs = n"
proof -
  have u: "unat (of_nat k :: byte) = k mod 256" for k
    by (simp add: unat_of_nat)
  have d1: "n div 2 ^ 16 = n div 2 ^ 8 div 256"
    by (simp add: div_mult2_eq)
  have d2: "n div 2 ^ 24 = n div 2 ^ 8 div 256 div 256"
    by (simp add: div_mult2_eq)
  have d3: "n div 2 ^ 8 div 256 div 256 < 256"
  proof -
    have "n div 2 ^ 8 div 256 div 256 = n div 2 ^ 24" by (simp add: div_mult2_eq)
    also have "\<dots> < 256" using assms by (simp add: less_mult_imp_div_less)
    finally show ?thesis .
  qed
  have "256 * (256 * (256 * (n div 2 ^ 24 mod 256) + n div 2 ^ 16 mod 256) + n div 2 ^ 8 mod 256) + n mod 256 = n"
    unfolding d1 d2 using d3 by simp
  then show ?thesis using assms
    by (simp add: to_bytes4_def from_bytes_def u)
qed

lemma length_MARKER: "length MARKER = 11"
  by (simp add: MARKER_def)

lemma bitstream_to_payload_bytes:
  "bitstream_to_payload bs =
     (let byte_array = bits_to_bytes bs
      in if length byte_array < 15 then Inl IncompleteHeader
         else if take 11 byte_array \<noteq> MARKER then Inl MarkerMismatch
         else if length byte_array - 15 < from_bytes (take 4 (drop 11 byte_array))
              then Inl TruncatedPayload
         else Inr (take (from_bytes (take 4 (drop 11 byte_array))) (drop 15 byte_array)))"
  by (auto simp add: bitstream_to_payload_def Let_def length_MARKER min_def)

text \<open>
  Claim C7.  When the bytes rebuilt from a bitstream hold the marker and the four length
  bytes, with \<open>L\<close> the length they declare: the parse fails with \<open>TruncatedPayload\<close>
  if fewer than \<open>L\<close> bytes follow the header; otherwise it returns exactly the first \<open>L\<close>
  bytes after the header, and so does the parse of the stream cut after
  \<open>(len(MARKER) + 4 + L) * 8\<close> bits: what lies beyond is ignored.
\<close>

theorem parse_returns_declared_payload:
  assumes "length MARKER + 4 \<le> length (bits_to_bytes bs)"
    and "take (length MARKER) (bits_to_bytes bs) = MARKER"
  shows "let L = from_bytes (take 4 (drop (length MARKER) (bits_to_bytes bs)));
             remaining = drop (length MARKER + 4) (bits_to_bytes bs)
         in (length remaining < L \<longrightarrow> bitstream_to_payload bs = Inl TruncatedPayload) \<and>
            (L \<le> length remaining \<longrightarrow>
               bitstream_to_payload bs = Inr (take L remaining) \<and>
               bitstream_to_payload (take ((length MARKER + 4 + L) * 8) bs) = Inr (take L remaining))"
proof -
  define byte_array where "byte_array = bits_to_bytes bs"
  define L where "L = from_bytes (take 4 (drop 11 byte_array))"
  have len: "15 \<le> length byte_array" and mk: "take 11 byte_array = MARKER"
    using assms by (simp_all add: byte_array_def length_MARKER)
  have full: "bitstream_to_payload bs =
      (if length byte_array - 15 < L then Inl TruncatedPayload else Inr (take L (drop 15 byte_array)))"
    using len mk by (simp add: bitstream_to_payload_bytes byte_array_def [symmetric] L_def Let_def)
  have cut: "bitstream_to_payload (take ((15 + L) * 8) bs) = Inr (take L (drop 15 byte_array))"
    if "L \<le> length byte_array - 15"
  proof -
    have b: "bits_to_bytes (take ((15 + L) * 8) bs) = take (15 + L) byte_array"
      by (simp add: bits_to_bytes_take byte_array_def mult.commute)
    have l: "length (take (15 + L) byte_array) = 15 + L"
      using that len by simp
    have t11: "take 11 (take (15 + L) byte_array) = take 11 byte_array"
      by (simp add: min_def)
    have t4: "take 4 (drop 11 (take (15 + L) byte_array)) = take 4 (drop 11 byte_array)"
      by (simp add: drop_take min_def)
    have p: "take L (drop 15 (take (15 + L) byte_array)) = take L (drop 15 byte_array)"
      by (simp add: drop_take)
    show ?thesis
      unfolding bitstream_to_payload_bytes b Let_def l t11 t4 p
      using mk by (simp add: L_def drop_take)
  qed
  show ?thesis
    using full cut
    by (simp add: Let_def length_MARKER byte_array_def [symmetric] L_def [symmetric])
qed

theorem parse_returns_declared_payload_witness:
  "bitstream_to_payload (bytes_to_bits (MARKER @ [0, 0, 0, 1, 0x41, 0x42])) = Inr [0x41] \<and>
   bitstream_to_payload (bytes_to_bits (MARKER @ [0, 0, 0, 2, 0x41])) = Inl TruncatedPayload"
proof -
  have a1: "length MARKER + 4 \<le> length (bits_to_bytes (bytes_to_bits (MARKER @ [0, 0, 0, 1, 0x41, 0x42])))"
    by (simp add: bits_to_bytes_inverse)
  have a2: "take (length MARKER) (bits_to_bytes (bytes_to_bits (MARKER @ [0, 0, 0, 1, 0x41, 0x42]))) = MARKER"
    by (simp add: bits_to_bytes_inverse)
  have b1: "length MARKER + 4 \<le> length (bits_to_bytes (bytes_to_bits (MARKER @ [0, 0, 0, 2, 0x41])))"
    by (simp add: bits_to_bytes_inverse)
  have b2: "take (length MARKER) (bits_to_bytes (bytes_to_bits (MARKER @ [0, 0, 0, 2, 0x41]))) = MARKER"
    by (simp add: bits_to_bytes_inverse)
  show ?thesis
    using parse_returns_declared_payload [OF a1 a2] parse_returns_declared_payload [OF b1 b2]
    by (simp add: bits_to_bytes_inverse from_bytes_def Let_def)
qed

text \<open>
  Claim C8.  A bit sequence of at least \<open>(len(MARKER) + 4) * 8\<close> bits whose first
  \<open>len(MARKER) * 8\<close> bits are not the bits of \<open>MARKER\<close> fails to parse with
  \<open>MarkerMismatch\<close>, whatever follows.
\<close>

theorem parse_rejects_wrong_marker:
  assumes "(length MARKER + 4) * 8 \<le> length bs"
    and "take (length MARKER * 8) bs \<noteq> bytes_to_bits MARKER"
  shows "bitstream_to_payload bs = Inl MarkerMismatch"
proof -
  have len: "15 \<le> length (bits_to_bytes bs)"
    using assms(1) by (simp add: length_bits_to_bytes length_MARKER)
  have "take 11 (bits_to_bytes bs) \<noteq> MARKER"
  proof
    assume m: "take 11 (bits_to_bytes bs) = MARKER"
    have "length (take 88 bs) = 88" using assms(1) by (simp add: length_MARKER)
    then have "bytes_to_bits (bits_to_bytes (take 88 bs)) = take 88 bs"
      by (intro bytes_to_bits_inverse) simp
    moreover have "bits_to_bytes (take 88 bs) = MARKER"
      using m bits_to_bytes_take [of 11 bs] by simp
    ultimately show False using assms(2) by (simp add: length_MARKER)
  qed
  with len show ?thesis
    by (simp add: bitstream_to_payload_bytes Let_def)
qed

theorem parse_rejects_wrong_marker_witness:
  "bitstream_to_payload (replicate 120 False) = Inl MarkerMismatch"
proof -
  have a1: "(length MARKER + 4) * 8 \<le> length (replicate 120 False)"
    by (simp add: length_MARKER)
  have "hd (tl (bytes_to_bits MARKER)) = True"
    by code_simp
  moreover have "hd (tl (take (length MARKER * 8) (replicate 120 False))) = False"
    by (simp add: length_MARKER numeral_eq_Suc)
  ultimately have a2: "take (length MARKER * 8) (replicate 120 False) \<noteq> bytes_to_bits MARKER"
    by metis
  show ?thesis
    by (rule parse_rejects_wrong_marker [OF a1 a2])
qed

text \<open>
  Claim C10.  Framing round trip: for a payload of fewer than \<open>2^32\<close> bytes,
  serialisation succeeds, gives \<open>(len(MARKER) + 4 + len(p)) * 8\<close> bits, and parsing that
  bitstream gives the payload back.
\<close>

theorem framing_round_trip:
  assumes "length p < 2 ^ 32"
  shows "\<exists>bits. payload_to_bitstream p = Inr bits \<and>
           length bits = (length MARKER + 4 + length p) * 8 \<and>
           bitstream_to_payload bits = Inr p"
proof -
  from from_bytes_to_bytes4 [OF assms] obtain lb where
    lb: "to_bytes4 (length p) = Inr lb" "length lb = 4" "from_bytes lb = length p"
    by blast
  have s: "payload_to_bitstream p = Inr (bytes_to_bits (MARKER @ lb @ p))"
    by (simp add: payload_to_bitstream_def lb(1) Let_def)
  have "bitstream_to_payload (bytes_to_bits (MARKER @ lb @ p)) = Inr p"
    by (simp add: bitstream_to_payload_bytes bits_to_bytes_inverse Let_def length_MARKER lb)
  with s show ?thesis
    by (simp add: length_bytes_to_bits lb(2))
qed

theorem framing_round_trip_witness:
  "\<exists>bits. payload_to_bitstream [0x41, 0x42, 0x43] = Inr bits \<and> length bits = 144 \<and>
     bitstream_to_payload bits = Inr [0x41, 0x42, 0x43]"
  using framing_round_trip [of "[0x41, 0x42, 0x43]"] by (simp add: length_MARKER)

section \<open>Properties of the bit codec\<close>

lemma py_round_near:
  assumes "\<bar>x - of_int k\<bar> < 1 / 2"
  shows "py_round x = k"
proof (cases "of_int k \<le> x")
  case True
  with assms have "\<lfloor>x\<rfloor> = k" by (intro floor_unique) auto
  with assms True show ?thesis by (simp add: py_round_def Let_def)
next
  case False
  with assms have "\<lfloor>x\<rfloor> = k - 1" by (intro floor_unique) auto
  with assms False show ?thesis by (auto simp add: py_round_def Let_def)
qed

lemma py_round_dist: "\<bar>x - of_int (py_round x)\<bar> \<le> 1 / 2"
proof -
  have "of_int \<lfloor>x\<rfloor> \<le> x" "x < of_int \<lfloor>x\<rfloor> + 1" by linarith+
  then show ?thesis by (auto simp add: py_round_def Let_def)
qed

lemma py_round_quarter:
  assumes "\<bar>e\<bar> < 2"
  shows "py_round ((4 * of_int k + e) / 4) = k"
proof -
  have eq: "(4 * of_int k + e) / 4 = of_int k + e / 4" by (simp add: add_divide_distrib)
  have "\<bar>(of_int k + e / 4) - of_int k\<bar> < 1 / 2" using assms by simp
  then have "py_round (of_int k + e / 4) = k" by (rule py_round_near)
  then show ?thesis by (simp only: eq)
qed

lemma off_lattice: "1 < \<bar>4 * of_int j - 2 + e\<bar>" if "\<bar>e\<bar> < 1" for e :: real
proof (cases "j \<le> 0")
  case True
  then have "(of_int j :: real) \<le> 0" by simp
  with that show ?thesis by linarith
next
  case False
  then have "1 \<le> j" by simp
  then have "(1 :: real) \<le> of_int j" by linarith
  with that show ?thesis by linarith
qed

lemma encode_lattice:
  "\<exists>k. encode c0 b = of_int k * QUANTIZATION_STEP + (if b then QUANTIZATION_STEP / 2 else 0)"
  by (auto simp add: encode_def Let_def)

lemma decode_zero_lattice:
  assumes "\<bar>e\<bar> < 1"
  shows "decode (4 * of_int k + e) = False"
proof -
  have "py_round ((4 * of_int k + e) / 4) = k" using assms by (simp add: py_round_quarter)
  then have nz: "nearest_zero (4 * of_int k + e) = 4 * of_int k"
    by (simp add: nearest_zero_def QUANTIZATION_STEP_def py_round_near)
  obtain m where no: "nearest_one (4 * of_int k + e) = 4 * of_int m + 2"
    by (simp add: nearest_one_def QUANTIZATION_STEP_def)
  have "4 * of_int k + e - (4 * of_int m + 2) = 4 * of_int (k - m) - 2 + e" by simp
  then have "1 < \<bar>4 * of_int k + e - (4 * of_int m + 2)\<bar>"
    using off_lattice [OF assms, of "k - m"] by simp
  with assms show ?thesis
    by (simp add: decode_def nz no)
qed

lemma decode_one_lattice:
  assumes "\<bar>e\<bar> < 1"
  shows "decode (4 * of_int k + 2 + e) = True"
proof -
  have "py_round ((4 * of_int k + e) / 4) = k" using assms by (simp add: py_round_quarter)
  then have "py_round ((4 * of_int k + 2 + e - 2) / 4) = k" by simp
  then have no: "nearest_one (4 * of_int k + 2 + e) = 4 * of_int k + 2"
    by (simp add: nearest_one_def QUANTIZATION_STEP_def)
  obtain m where nz: "nearest_zero (4 * of_int k + 2 + e) = 4 * of_int m"
    by (simp add: nearest_zero_def QUANTIZATION_STEP_def)
  have "4 * of_int k + 2 + e - 4 * of_int m = - (4 * of_int (m - k) - 2 + (- e))" by simp
  then have "1 < \<bar>4 * of_int k + 2 + e - 4 * of_int m\<bar>"
    using off_lattice [of "- e" "m - k"] assms by simp
  with assms show ?thesis
    by (simp add: decode_def nz no)
qed

lemma encode_nearest: "\<bar>c0 - encode c0 b\<bar> \<le> QUANTIZATION_STEP / 2"
proof (cases b)
  case True
  have "\<bar>(c0 - 2) / 4 - of_int (py_round ((c0 - 2) / 4))\<bar> \<le> 1 / 2" by (rule py_round_dist)
  moreover define y where "y = (c0 - 2) / 4"
  moreover have "c0 = 4 * y + 2" unfolding y_def by (simp add: field_simps)
  ultimately have "\<bar>c0 - (of_int (py_round ((c0 - 2) / 4)) * 4 + 2)\<bar> \<le> 2"
    by linarith
  with True show ?thesis by (simp add: encode_def QUANTIZATION_STEP_def)
next
  case False
  have "\<bar>c0 / 4 - of_int (py_round (c0 / 4))\<bar> \<le> 1 / 2" by (rule py_round_dist)
  moreover define y where "y = c0 / 4"
  moreover have "c0 = 4 * y" unfolding y_def by (simp add: field_simps)
  ultimately have "\<bar>c0 - of_int (py_round (c0 / 4)) * 4\<bar> \<le> 2"
    by linarith
  with False show ?thesis by (simp add: encode_def QUANTIZATION_STEP_def)
qed

text \<open>
  Claim C5.  Noise tolerance: for every coefficient \<open>c0\<close>, bit \<open>b\<close> and perturbation
  \<open>e\<close> with \<open>|e| < q/4\<close> (\<open>e = 0\<close> included), decoding \<open>encode c0 b + e\<close> gives \<open>b\<close>;
  the encoded value lies on the lattice of \<open>b\<close> (multiples of \<open>q\<close> for 0, odd multiples of
  \<open>q/2\<close> for 1) and is a nearest point of it, at most \<open>q/2\<close> away from \<open>c0\<close>.
\<close>

theorem noise_tolerance:
  assumes "\<bar>e\<bar> < QUANTIZATION_STEP / 4"
  shows "decode (encode c0 b + e) = b \<and>
         (\<exists>k. encode c0 b = of_int k * QUANTIZATION_STEP + (if b then QUANTIZATION_STEP / 2 else 0)) \<and>
         \<bar>c0 - encode c0 b\<bar> \<le> QUANTIZATION_STEP / 2"
proof -
  from assms have e: "\<bar>e\<bar> < 1" by (simp add: QUANTIZATION_STEP_def)
  have "decode (encode c0 b + e) = b"
  proof (cases b)
    case True
    then have "encode c0 b = 4 * of_int (py_round ((c0 - 2) / 4)) + 2"
      by (simp add: encode_def QUANTIZATION_STEP_def)
    with True e show ?thesis by (simp add: decode_one_lattice)
  next
    case False
    then have "encode c0 b = 4 * of_int (py_round (c0 / 4))"
      by (simp add: encode_def QUANTIZATION_STEP_def)
    with False e show ?thesis by (simp add: decode_zero_lattice)
  qed
  then show ?thesis
    using encode_lattice [of c0 b] encode_nearest [of c0 b] by simp
qed

theorem noise_tolerance_witness:
  "\<bar>1 / 2 :: real\<bar> < QUANTIZATION_STEP / 4 \<and> decode (encode 5 True + 1 / 2) = True \<and> encode 5 True = 6"
  using noise_tolerance [of "1 / 2" 5 True] by (simp add: QUANTIZATION_STEP_def encode_def py_round_def Let_def)

text \<open>
  The points at the same distance from a multiple of \<open>q\<close> and from an odd multiple of
  \<open>q/2\<close> are the odd integers \<open>2k + 1\<close>.  At such a point the two lattice points found
  by lines 136 and 137 are \<open>2k\<close> and \<open>2k + 2\<close>, in the order that the parity of \<open>k\<close>
  gives, both at distance 1.
\<close>

lemma odd_point_distances:
  "nearest_zero (2 * of_int k + 1) = (if even k then 2 * of_int k else 2 * of_int k + 2)"
  "nearest_one (2 * of_int k + 1) = (if even k then 2 * of_int k + 2 else 2 * of_int k)"
proof -
  show "nearest_zero (2 * of_int k + 1) = (if even k then 2 * of_int k else 2 * of_int k + 2)"
  proof (cases "even k")
    case True
    then obtain j where k: "k = 2 * j" by (auto elim: evenE)
    have "py_round ((4 * of_int j + 1) / 4) = j" by (rule py_round_quarter) simp
    then show ?thesis
      using True by (simp add: nearest_zero_def QUANTIZATION_STEP_def k)
  next
    case False
    then obtain j where k: "k = 2 * j + 1" by (auto elim: oddE)
    have "py_round ((4 * of_int (j + 1) + (- 1)) / 4) = j + 1" by (rule py_round_quarter) simp
    then have "py_round ((4 * of_int j + 3) / 4) = j + 1" by (simp add: algebra_simps)
    then show ?thesis
      using False by (simp add: nearest_zero_def QUANTIZATION_STEP_def k algebra_simps)
  qed
  show "nearest_one (2 * of_int k + 1) = (if even k then 2 * of_int k + 2 else 2 * of_int k)"
  proof (cases "even k")
    case True
    then obtain j where k: "k = 2 * j" by (auto elim: evenE)
    have "py_round ((4 * of_int j + (- 1)) / 4) = j" by (rule py_round_quarter) simp
    then have "py_round ((4 * of_int j + 1 - 2) / 4) = j" by (simp add: algebra_simps)
    then show ?thesis
      using True by (simp add: nearest_one_def QUANTIZATION_STEP_def k algebra_simps)
  next
    case False
    then obtain j where k: "k = 2 * j + 1" by (auto elim: oddE)
    have "py_round ((4 * of_int j + 1) / 4) = j" by (rule py_round_quarter) simp
    then have "py_round ((4 * of_int j + 3 - 2) / 4) = j" by (simp add: algebra_simps)
    then show ?thesis
      using False by (simp add: nearest_one_def QUANTIZATION_STEP_def k algebra_simps)
  qed
qed

lemma decode_odd: "decode (2 * of_int k + 1) = False"
  by (simp add: decode_def odd_point_distances)

lemma equidistant_is_odd:
  fixes c :: real
  assumes "\<bar>c - of_int m * 4\<bar> = \<bar>c - (of_int n * 4 + 2)\<bar>"
  shows "c = 2 * of_int (m + n) + 1"
proof -
  from assms consider (same) "c - of_int m * 4 = c - (of_int n * 4 + 2)"
    | (opposite) "c - of_int m * 4 = - (c - (of_int n * 4 + 2))"
    by (auto simp add: abs_eq_iff)
  then show ?thesis
  proof cases
    case same
    then have "(of_int (4 * m) :: real) = of_int (4 * n + 2)" by simp
    then have "4 * m = 4 * n + 2" by (simp only: of_int_eq_iff)
    then have False by presburger
    then show ?thesis ..
  next
    case opposite
    then show ?thesis by simp
  qed
qed

text \<open>
  Claim C6.  Tie-break: a coefficient \<open>c\<close> at equal distance from a 0-lattice point
  \<open>m * q\<close> and a 1-lattice point \<open>n * q + q/2\<close> decodes to bit 0.  Such a coefficient is
  the odd integer \<open>2 (m + n) + 1\<close>; its nearest 0-lattice point \<open>round(c/q) * q\<close> and its
  nearest 1-lattice point \<open>round((c - q/2)/q) * q + q/2\<close> are both at distance \<open>q/4\<close>, so the
  comparison of line 140 is between equal distances and \<open><=\<close> gives bit 0.  Every odd
  integer decodes to bit 0.
\<close>

theorem tie_break:
  assumes "\<bar>c - of_int m * QUANTIZATION_STEP\<bar>
         = \<bar>c - (of_int n * QUANTIZATION_STEP + QUANTIZATION_STEP / 2)\<bar>"
  shows "decode c = False \<and> c = 2 * of_int (m + n) + 1 \<and>
         \<bar>c - nearest_zero c\<bar> = QUANTIZATION_STEP / 4 \<and>
         \<bar>c - nearest_one c\<bar> = QUANTIZATION_STEP / 4 \<and>
         (\<forall>k. decode (2 * of_int k + 1) = False)"
proof -
  from assms have c: "c = 2 * of_int (m + n) + 1"
    by (intro equidistant_is_odd) (simp add: QUANTIZATION_STEP_def)
  have d: "\<bar>c - nearest_zero c\<bar> = 1" "\<bar>c - nearest_one c\<bar> = 1"
    unfolding c odd_point_distances by simp_all
  have q: "QUANTIZATION_STEP / 4 = 1" by (simp add: QUANTIZATION_STEP_def)
  have dc: "decode c = False"
    unfolding c by (rule decode_odd)
  show ?thesis
    unfolding q using dc c d decode_odd by (intro conjI allI)
qed

theorem tie_break_witness:
  "\<bar>3 - of_int 1 * QUANTIZATION_STEP\<bar> = \<bar>3 - (of_int 0 * QUANTIZATION_STEP + QUANTIZATION_STEP / 2)\<bar> \<and>
   decode 3 = False \<and> nearest_zero 3 = 4 \<and> nearest_one 3 = 2"
proof -
  have h: "\<bar>3 - of_int 1 * QUANTIZATION_STEP\<bar>
      = \<bar>3 - (of_int 0 * QUANTIZATION_STEP + QUANTIZATION_STEP / 2)\<bar>"
    by (simp add: QUANTIZATION_STEP_def)
  have nz: "nearest_zero 3 = 4" and no: "nearest_one 3 = 2"
    by (simp_all add: nearest_zero_def nearest_one_def QUANTIZATION_STEP_def py_round_def Let_def)
  from tie_break [OF h] h nz no show ?thesis by simp
qed

section \<open>The loops of the extractor over the bits of the frames\<close>

lemma header_len_bits_eq: "header_len_bits = 120"
  by (simp add: header_len_bits_def length_MARKER)

lemma marker_prefix_snoc:
  assumes "header_len_bits \<le> length bs"
  shows "take (length MARKER) (bits_to_bytes (bs @ [b])) = take (length MARKER) (bits_to_bytes bs)"
  using assms by (simp add: bits_to_bytes_take header_len_bits_eq length_MARKER)

lemma append_bit_failed:
  assumes "marker_failed st"
  shows "append_bit b st = (st\<lparr>extracted_bits := extracted_bits st @ [b], extraction_failed := True\<rparr>, True)"
  using assms marker_prefix_snoc [of "extracted_bits st" b]
  by (simp add: append_bit_def marker_failed_def Let_def)

lemma append_bit_consistent:
  assumes "consistent st" and "append_bit b st = (st', left)"
  shows "consistent st' \<and> (left \<longleftrightarrow> extraction_failed st' \<or> enough_bits st')"
proof (cases "extraction_failed st")
  case True
  with assms(1) have mf: "marker_failed st" by (simp add: consistent_def)
  from assms(2) have st': "st' = st\<lparr>extracted_bits := extracted_bits st @ [b], extraction_failed := True\<rparr>"
    and l: "left" by (simp_all add: append_bit_failed [OF mf])
  have "marker_failed st'"
    using mf marker_prefix_snoc [of "extracted_bits st" b]
    by (simp add: st' marker_failed_def)
  with l st' show ?thesis by (simp add: consistent_def)
next
  case False
  with assms(2) show ?thesis
    by (auto simp add: append_bit_def Let_def consistent_def marker_failed_def enough_bits_def
        split: if_splits)
qed

lemma scan_bits_consistent:
  assumes "consistent st" and "scan_bits bs st = (st', left)"
  shows "consistent st' \<and> (left \<longrightarrow> extraction_failed st' \<or> enough_bits st') \<and>
         (bs \<noteq> [] \<longrightarrow> \<not> left \<longrightarrow> \<not> (extraction_failed st' \<or> enough_bits st'))"
  using assms
proof (induction bs arbitrary: st)
  case Nil
  then show ?case by simp
next
  case (Cons b bs)
  obtain st1 l1 where s1: "append_bit b st = (st1, l1)" by (cases "append_bit b st")
  from append_bit_consistent [OF Cons.prems(1) s1]
  have c1: "consistent st1" and l1: "l1 \<longleftrightarrow> extraction_failed st1 \<or> enough_bits st1" by simp_all
  show ?case
  proof (cases l1)
    case True
    with Cons.prems(2) s1 c1 l1 show ?thesis by simp
  next
    case False
    with Cons.prems(2) s1 have r: "scan_bits bs st1 = (st', left)" by simp
    from Cons.IH [OF c1 r] False l1 r show ?thesis
      by (cases bs) auto
  qed
qed

lemma scan_bits_append:
  "scan_bits (xs @ ys) st =
     (case scan_bits xs st of (st', left) \<Rightarrow> if left then (st', True) else scan_bits ys st')"
  by (induction xs arbitrary: st) (simp_all split: prod.splits)

lemma extract_row_scan:
  "extract_row dct y i js st = fst (scan_bits (map (\<lambda>j. block_bit dct y i j) js) st)"
  by (induction js arbitrary: st) (simp_all split: prod.splits)

lemma extract_rows_scan:
  assumes "consistent st"
  shows "extract_rows dct width y is st =
     fst (scan_bits (concat (map (\<lambda>i. map (\<lambda>j. block_bit dct y i j) (range8 width)) is)) st)"
  using assms
proof (induction "is" arbitrary: st)
  case Nil
  then show ?case by simp
next
  case (Cons i "is")
  define row where "row = map (\<lambda>j. block_bit dct y i j) (range8 width)"
  define rest where "rest = concat (map (\<lambda>i. map (\<lambda>j. block_bit dct y i j) (range8 width)) is)"
  obtain st1 l1 where s1: "scan_bits row st = (st1, l1)" by (cases "scan_bits row st")
  from scan_bits_consistent [OF Cons.prems s1]
  have c1: "consistent st1"
    and l1: "l1 \<longrightarrow> extraction_failed st1 \<or> enough_bits st1"
    and n1: "row \<noteq> [] \<longrightarrow> \<not> l1 \<longrightarrow> \<not> (extraction_failed st1 \<or> enough_bits st1)"
    by simp_all
  have row1: "extract_row dct y i (range8 width) st = st1"
    by (simp add: extract_row_scan row_def [symmetric] s1)
  have whole: "scan_bits (row @ rest) st = (if l1 then (st1, True) else scan_bits rest st1)"
    by (simp add: scan_bits_append s1)
  have lhs: "extract_rows dct width y (i # is) st =
      (if extraction_failed st1 \<or> enough_bits st1 then st1 else extract_rows dct width y is st1)"
    by (simp add: row1 Let_def)
  have rhs: "concat (map (\<lambda>i. map (\<lambda>j. block_bit dct y i j) (range8 width)) (i # is)) = row @ rest"
    by (simp add: row_def rest_def)
  have ih: "extract_rows dct width y is st1 = fst (scan_bits rest st1)"
    unfolding rest_def by (rule Cons.IH [OF c1])
  have "(if extraction_failed st1 \<or> enough_bits st1 then st1 else extract_rows dct width y is st1)
      = fst (scan_bits (row @ rest) st)"
  proof (cases "extraction_failed st1 \<or> enough_bits st1")
    case True
    show ?thesis
    proof (cases l1)
      case True
      with \<open>extraction_failed st1 \<or> enough_bits st1\<close> whole show ?thesis by simp
    next
      case False
      with True n1 have "row = []" by auto
      then have "range8 width = []" by (simp add: row_def)
      then have "rest = []" by (simp add: rest_def)
      with True False whole show ?thesis by simp
    qed
  next
    case False
    with l1 have "\<not> l1" by auto
    with False whole ih show ?thesis by simp
  qed
  then show ?case by (simp only: lhs rhs)
qed

lemma scan_bits_fst_consistent: "consistent st \<Longrightarrow> consistent (fst (scan_bits bs st))"
  using scan_bits_consistent [of st bs] by (cases "scan_bits bs st") auto

lemma extract_frames_scan:
  assumes "consistent st"
  shows "extract_frames dct width height frames st =
     scan_frames (map (frame_bits dct width height) frames) st"
  using assms
proof (induction frames arbitrary: st)
  case Nil
  then show ?case by simp
next
  case (Cons frame frames)
  have "consistent (fst (scan_bits (frame_bits dct width height frame) st))"
    using Cons.prems by (rule scan_bits_fst_consistent)
  with Cons show ?case
    by (simp add: extract_rows_scan frame_bits_def)
qed

lemma extract_scan_frames:
  "extract_scan dct width height frames =
     scan_frames (map (frame_bits dct width height) frames)
       \<lparr>extracted_bits = [], total_bits_to_extract = None, extraction_failed = False\<rparr>"
  unfolding extract_scan_def by (rule extract_frames_scan) (simp add: consistent_def)

section \<open>The library transform on the test frames\<close>

lemma sqrt_quarter: "sqrt (2 / 8) = 1 / 2"
proof -
  have "sqrt (2 / 8) = sqrt ((1 / 2)\<^sup>2)" by (simp add: power2_eq_square)
  also have "\<dots> = 1 / 2" by (simp only: real_sqrt_abs)
  finally show ?thesis .
qed

lemma upt8: "[0..<8] = [0, 1, 2, 3, 4, 5, 6, 7]"
  by (simp add: upt_rec)

lemma get_block_carrier: "get_block (carrier_plane b) 0 0 = carrier_plane b"
  by (simp add: get_block_def carrier_plane_def numeral_eq_Suc)

lemma coeff_carrier:
  "coeff_at (cv2_dct (astype_float32 (carrier_plane b)))
     = (if b then 2 * (cos (pi / 8) * cos (pi / 16)) else 0)"
  by (simp add: coeff_at_def DCT_COORDINATE_def cv2_dct_def astype_float32_def carrier_plane_def
      upt8 dct_basis_def sqrt_quarter numeral_eq_Suc Let_def)


lemma cos_product_bounds:
  "1 / 2 < cos (pi / 8) * cos (pi / 16)" "cos (pi / 8) * cos (pi / 16) \<le> 1"
proof -
  have a: "cos (pi / 4) < cos (pi / 8)"
    by (rule cos_monotone_0_pi) (use pi_gt_zero in auto)
  have b: "cos (pi / 4) < cos (pi / 16)"
    by (rule cos_monotone_0_pi) (use pi_gt_zero in auto)
  have c: "cos (pi / 4) * cos (pi / 4) = 1 / 2"
    by (simp add: cos_45)
  have p: "0 < cos (pi / 4)"
    by (simp add: cos_45)
  have "cos (pi / 4) * cos (pi / 4) < cos (pi / 8) * cos (pi / 16)"
    using a b p by (intro mult_strict_mono) auto
  with c show "1 / 2 < cos (pi / 8) * cos (pi / 16)" by simp
  have "cos (pi / 8) * cos (pi / 16) \<le> 1 * 1"
    using a b p by (intro mult_mono) auto
  then show "cos (pi / 8) * cos (pi / 16) \<le> 1" by simp
qed

lemma decode_between: "1 < c \<Longrightarrow> c \<le> 2 \<Longrightarrow> decode c = True"
  using decode_one_lattice [of "c - 2" 0] by simp

lemma decode_0: "decode 0 = False"
  using decode_zero_lattice [of 0 0] by simp

lemma block_bit_carrier: "block_bit cv2_dct (carrier_plane b) 0 0 = b"
proof (cases b)
  case True
  have "decode (2 * (cos (pi / 8) * cos (pi / 16))) = True"
    using cos_product_bounds by (intro decode_between) auto
  with True show ?thesis
    by (simp add: block_bit_def get_block_carrier coeff_carrier Let_def)
next
  case False
  then show ?thesis
    by (simp add: block_bit_def get_block_carrier coeff_carrier Let_def decode_0)
qed

lemma range8_8: "range8 8 = [0]"
  by (simp add: range8_def)

lemma frame_bits_carrier: "frame_bits cv2_dct 8 8 (carrier_plane b) = [b]"
  by (simp add: frame_bits_def range8_8 block_bit_carrier)

lemma extract_scan_carrier:
  "extract_scan cv2_dct 8 8 (map carrier_plane bs) =
     scan_frames (map (\<lambda>b. [b]) bs)
       \<lparr>extracted_bits = [], total_bits_to_extract = None, extraction_failed = False\<rparr>"
  by (simp add: extract_scan_frames frame_bits_carrier comp_def)



lemma scan_mismatch_120:
  "scan_frames (map (\<lambda>b. [b]) (take 120 (replicate 122 False)))
       \<lparr>extracted_bits = [], total_bits_to_extract = None, extraction_failed = False\<rparr>
   = \<lparr>extracted_bits = replicate 120 False, total_bits_to_extract = None, extraction_failed = True\<rparr>"
  by code_simp

lemma scan_mismatch_122:
  "scan_frames (map (\<lambda>b. [b]) (replicate 122 False))
       \<lparr>extracted_bits = [], total_bits_to_extract = None, extraction_failed = False\<rparr>
   = \<lparr>extracted_bits = replicate 122 False, total_bits_to_extract = None, extraction_failed = True\<rparr>"
  by code_simp

lemma scan_empty_payload_120:
  "scan_frames (map (\<lambda>b. [b]) (take 120 (bytes_to_bits (MARKER @ [0, 0, 0, 0]) @ [False, False])))
       \<lparr>extracted_bits = [], total_bits_to_extract = None, extraction_failed = False\<rparr>
   = \<lparr>extracted_bits = bytes_to_bits (MARKER @ [0, 0, 0, 0]),
        total_bits_to_extract = Some 120, extraction_failed = False\<rparr>"
  by code_simp

lemma scan_empty_payload_122:
  "scan_frames (map (\<lambda>b. [b]) (bytes_to_bits (MARKER @ [0, 0, 0, 0]) @ [False, False]))
       \<lparr>extracted_bits = [], total_bits_to_extract = None, extraction_failed = False\<rparr>
   = \<lparr>extracted_bits = bytes_to_bits (MARKER @ [0, 0, 0, 0]) @ [False, False],
        total_bits_to_extract = Some 120, extraction_failed = False\<rparr>"
  by code_simp

lemma parse_empty_payload_122:
  "bitstream_to_payload (bytes_to_bits (MARKER @ [0, 0, 0, 0]) @ [False, False]) = Inr []"
  by code_simp

lemma scan_truncated_121:
  "scan_frames (map (\<lambda>b. [b]) (take 121 (bytes_to_bits (MARKER @ [0, 0, 0, 1, 0x80]))))
       \<lparr>extracted_bits = [], total_bits_to_extract = None, extraction_failed = False\<rparr>
   = \<lparr>extracted_bits = take 121 (bytes_to_bits (MARKER @ [0, 0, 0, 1, 0x80])),
        total_bits_to_extract = Some 128, extraction_failed = False\<rparr>"
  by code_simp

lemma parse_truncated_121:
  "bitstream_to_payload (take 121 (bytes_to_bits (MARKER @ [0, 0, 0, 1, 0x80]))) = Inr [0x01]"
  by code_simp

lemma scan_truncated_113:
  "scan_frames (map (\<lambda>b. [b]) (take 113 (bytes_to_bits (MARKER @ [0, 0, 0, 0]))))
       \<lparr>extracted_bits = [], total_bits_to_extract = None, extraction_failed = False\<rparr>
   = \<lparr>extracted_bits = take 113 (bytes_to_bits (MARKER @ [0, 0, 0, 0])),
        total_bits_to_extract = None, extraction_failed = False\<rparr>"
  by code_simp

lemma parse_truncated_113:
  "bitstream_to_payload (take 113 (bytes_to_bits (MARKER @ [0, 0, 0, 0]))) = Inr []"
  by code_simp

lemma serialize_empty: "payload_to_bitstream [] = Inr (bytes_to_bits (MARKER @ [0, 0, 0, 0]))"
  by (simp add: payload_to_bitstream_def to_bytes4_def)

lemma serialize_0x80: "payload_to_bitstream [0x80] = Inr (bytes_to_bits (MARKER @ [0, 0, 0, 1, 0x80]))"
  by (simp add: payload_to_bitstream_def to_bytes4_def)

section \<open>The extractor after the header\<close>

text \<open>
  Claim C2.  The claim is that no block is decoded and no bit appended once the
  accumulator has reached \<open>required_bits\<close>.  The source leaves the two \<open>for\<close> loops at
  that point but not the \<open>while\<close> loop: it reads every later frame and decodes the first
  block of each.  Here 120 frames of one block carry the header of an empty payload
  (\<open>required_bits = 120\<close>) and two more frames follow: after 120 frames the accumulator holds
  120 bits, at the end it holds 122, and these 122 bits are handed to
  \<open>_bitstream_to_payload\<close>.
\<close>

theorem extract_reads_on_after_required_bits:
  "let frames = map carrier_plane (bytes_to_bits (MARKER @ [0, 0, 0, 0]) @ [False, False]);
       reached = extract_scan cv2_dct 8 8 (take 120 frames);
       final = extract_scan cv2_dct 8 8 frames
   in total_bits_to_extract reached = Some 120 \<and> length (extracted_bits reached) = 120 \<and>
      total_bits_to_extract final = Some 120 \<and> length (extracted_bits final) = 122 \<and>
      extract_fn cv2_dct 8 8 frames = Inr []"
  unfolding Let_def extract_fn_def take_map extract_scan_carrier
    scan_empty_payload_120 scan_empty_payload_122
  by (simp add: parse_empty_payload_122 length_bytes_to_bits length_MARKER)

text \<open>
  Claim C3.  The claim is that after a marker mismatch no further block of any frame is
  decoded.  Here every block reads as 0, the mismatch is found at the 120th block, in the
  120th frame, and two more frames follow: the first block of each is decoded and its bit
  appended, so the accumulator ends with 122 bits.  No payload is written.
\<close>

theorem extract_reads_on_after_marker_mismatch:
  "let frames = map carrier_plane (replicate 122 False);
       detected = extract_scan cv2_dct 8 8 (take 120 frames);
       final = extract_scan cv2_dct 8 8 frames
   in extraction_failed detected \<and> length (extracted_bits detected) = 120 \<and>
      extraction_failed final \<and> length (extracted_bits final) = 122 \<and>
      extract_fn cv2_dct 8 8 frames = Inl MarkerMismatch"
  unfolding Let_def extract_fn_def take_map extract_scan_carrier scan_mismatch_120 scan_mismatch_122
  by simp

text \<open>
  Claim C4.  The claim is that a frame sequence that ends before \<open>required_bits\<close> bits
  were accumulated fails and yields no payload.  Here the payload is the one byte \<open>0x80\<close>
  (\<open>required_bits = 128\<close>) and the video ends after 121 blocks: the source prints that
  the video ended, then parses the 121 bits, where the last chunk of one bit counts as the
  byte \<open>0x01\<close>, and writes that byte as the payload.  In the same way a video that ends
  after 113 blocks of the bitstream of the empty payload, before the header is complete,
  gives 15 bytes, and the empty payload is written.
\<close>

theorem extract_writes_payload_from_truncated_stream:
  "let stream = bytes_to_bits (MARKER @ [0, 0, 0, 1, 0x80]);
       frames = map carrier_plane (take 121 stream);
       final = extract_scan cv2_dct 8 8 frames;
       stream' = bytes_to_bits (MARKER @ [0, 0, 0, 0]);
       frames' = map carrier_plane (take 113 stream');
       final' = extract_scan cv2_dct 8 8 frames'
   in payload_to_bitstream [0x80] = Inr stream \<and>
      total_bits_to_extract final = Some 128 \<and> length (extracted_bits final) = 121 \<and>
      extract_fn cv2_dct 8 8 frames = Inr [0x01] \<and>
      payload_to_bitstream [] = Inr stream' \<and>
      total_bits_to_extract final' = None \<and> length (extracted_bits final') = 113 \<and>
      extract_fn cv2_dct 8 8 frames' = Inr []"
  unfolding Let_def extract_fn_def extract_scan_carrier scan_truncated_121 scan_truncated_113
  by (simp add: parse_truncated_121 parse_truncated_113 serialize_0x80 serialize_empty
      length_bytes_to_bits length_MARKER)

section \<open>Reading and writing blocks\<close>

lemma length_set_block: "length (set_block y i j m) = length y"
  by (simp add: set_block_def)

lemma nth_set_block:
  assumes "r < length y"
  shows "set_block y i j m ! r =
     (if i \<le> r \<and> r < i + 8
      then map (\<lambda>c. if j \<le> c \<and> c < j + 8 then m ! (r - i) ! (c - j) else y ! r ! c) [0..<length (y ! r)]
      else y ! r)"
  using assms by (simp add: set_block_def)

lemma length_nth_set_block:
  assumes "r < length y"
  shows "length (set_block y i j m ! r) = length (y ! r)"
  using assms by (simp add: nth_set_block)

lemma frame_ok_set_block:
  assumes "frame_ok w h y"
  shows "frame_ok w h (set_block y i j m)"
  using assms
  by (simp add: frame_ok_def all_set_conv_all_nth length_set_block length_nth_set_block)

lemma other_row: "8 dvd i \<Longrightarrow> 8 dvd i' \<Longrightarrow> i \<noteq> i' \<Longrightarrow> r < 8 \<Longrightarrow> \<not> (i' \<le> i + r \<and> i + r < i' + 8)" for i :: nat
  by presburger

lemma block_row_other:
  assumes "8 dvd j" "8 dvd j'" "j \<noteq> j'"
  shows "take 8 (drop j (map (\<lambda>c. if j' \<le> c \<and> c < j' + 8 then f c else row ! c) [0..<length row]))
       = take 8 (drop j row)"
proof (rule nth_equalityI)
  show "length (take 8 (drop j (map (\<lambda>c. if j' \<le> c \<and> c < j' + 8 then f c else row ! c) [0..<length row])))
      = length (take 8 (drop j row))" by simp
next
  fix c
  assume "c < length (take 8 (drop j (map (\<lambda>c. if j' \<le> c \<and> c < j' + 8 then f c else row ! c) [0..<length row])))"
  then have c: "c < 8" "j + c < length row" by auto
  with other_row [OF assms c(1)]
  show "take 8 (drop j (map (\<lambda>c. if j' \<le> c \<and> c < j' + 8 then f c else row ! c) [0..<length row])) ! c
      = take 8 (drop j row) ! c"
    by auto
qed

lemma get_block_set_block_other:
  assumes "8 dvd i" "8 dvd j" "8 dvd i'" "8 dvd j'" "(i, j) \<noteq> (i', j')"
  shows "get_block (set_block y i' j' m) i j = get_block y i j"
  unfolding get_block_def
proof (rule nth_equalityI)
  show "length (map (\<lambda>row. take 8 (drop j row)) (take 8 (drop i (set_block y i' j' m))))
      = length (map (\<lambda>row. take 8 (drop j row)) (take 8 (drop i y)))"
    by (simp add: length_set_block)
next
  fix r
  assume "r < length (map (\<lambda>row. take 8 (drop j row)) (take 8 (drop i (set_block y i' j' m))))"
  then have r: "r < 8" "i + r < length y" by (auto simp add: length_set_block)
  then have i: "i \<le> length (set_block y i' j' m)" "i \<le> length y" by (simp_all add: length_set_block)
  have "take 8 (drop j (set_block y i' j' m ! (i + r))) = take 8 (drop j (y ! (i + r)))"
  proof (cases "i = i'")
    case True
    with assms(5) have "j \<noteq> j'" by simp
    from block_row_other [OF assms(2) assms(4) this,
        of "\<lambda>c. m ! (i + r - i') ! (c - j')" "y ! (i + r)"] r show ?thesis
      by (auto simp add: nth_set_block)
  next
    case False
    from other_row [OF assms(1) assms(3) False r(1)] r show ?thesis
      by (auto simp add: nth_set_block)
  qed
  with r i show "map (\<lambda>row. take 8 (drop j row)) (take 8 (drop i (set_block y i' j' m))) ! r
      = map (\<lambda>row. take 8 (drop j row)) (take 8 (drop i y)) ! r"
    by (simp add: length_set_block)
qed

lemma get_block_set_block_same:
  assumes "frame_ok w h y" "i + 8 \<le> h" "j + 8 \<le> w" "frame_ok 8 8 m"
  shows "get_block (set_block y i j m) i j = m"
proof (rule nth_equalityI)
  from assms show len: "length (get_block (set_block y i j m) i j) = length m"
    by (simp add: get_block_def length_set_block frame_ok_def)
  fix r
  assume "r < length (get_block (set_block y i j m) i j)"
  with len assms have r: "r < 8" "i + r < length y" by (auto simp add: frame_ok_def)
  then have i: "i \<le> length (set_block y i j m)" by (simp add: length_set_block)
  from assms r have lrow: "length (y ! (i + r)) = w" and lm: "length (m ! r) = 8"
    by (simp_all add: frame_ok_def all_set_conv_all_nth)
  have "take 8 (drop j (set_block y i j m ! (i + r))) = m ! r"
  proof (rule nth_equalityI)
    show "length (take 8 (drop j (set_block y i j m ! (i + r)))) = length (m ! r)"
      using r lrow lm assms(3) by (simp add: length_nth_set_block)
  next
    fix c
    assume "c < length (take 8 (drop j (set_block y i j m ! (i + r))))"
    with r lrow assms(3) have c: "c < 8" "j + c < w" by (auto simp add: length_nth_set_block)
    with r lrow show "take 8 (drop j (set_block y i j m ! (i + r))) ! c = m ! r ! c"
      by (simp add: nth_set_block)
  qed
  with r i show "get_block (set_block y i j m) i j ! r = m ! r"
    by (simp add: get_block_def length_set_block)
qed

lemma frame_ok_get_block:
  assumes "frame_ok w h y" "i + 8 \<le> h" "j + 8 \<le> w"
  shows "frame_ok 8 8 (get_block y i j)"
  using assms by (auto simp add: frame_ok_def get_block_def dest!: in_set_takeD in_set_dropD)

section \<open>The loops of the embedder as block writes\<close>

lemma iterator_advance: "bitstream_iterator (advance n st) = drop n (bitstream_iterator st)"
  by (simp add: advance_def)

lemma advance_0: "advance 0 st = st"
  by (simp add: advance_def)

lemma embed_row_write:
  "embed_row dct idct i js y st =
     (write_blocks dct idct (zip (map (Pair i) js) (bitstream_iterator st)) y, advance (length js) st)"
proof (induction js arbitrary: y st)
  case Nil
  then show ?case by (simp add: advance_0)
next
  case (Cons j js)
  show ?case
  proof (cases "bitstream_iterator st")
    case Nil
    then show ?thesis by (simp add: advance_def)
  next
    case (Cons b rest)
    then show ?thesis
      by (simp add: Cons.IH advance_def)
  qed
qed

lemma write_blocks_append:
  "write_blocks dct idct (xs @ ys) y = write_blocks dct idct ys (write_blocks dct idct xs y)"
  by (induction xs arbitrary: y) auto

lemma zip_append_left:
  "zip (xs @ ys) bs = zip xs bs @ zip ys (drop (length xs) bs)"
  by (induction xs arbitrary: bs) (auto simp add: zip_Cons1 split: list.splits)

lemma advance_advance:
  "\<not> embedding_complete (advance n st) \<Longrightarrow> advance m (advance n st) = advance (n + m) st"
  by (auto simp add: advance_def min_def ac_simps)

lemma advance_complete:
  "embedding_complete (advance n st) \<Longrightarrow> \<not> embedding_complete st \<Longrightarrow>
     advance (n + m) st = advance n st \<and> drop n (bitstream_iterator st) = []"
  by (auto simp add: advance_def min_def)

lemma embed_rows_write:
  assumes "\<not> embedding_complete st"
  shows "embed_rows dct idct width is y st =
     (write_blocks dct idct
        (zip (concat (map (\<lambda>i. map (\<lambda>j. (i, j)) (range8 width)) is)) (bitstream_iterator st)) y,
      advance (length (concat (map (\<lambda>i. map (\<lambda>j. (i, j)) (range8 width)) is))) st)"
  using assms
proof (induction "is" arbitrary: y st)
  case Nil
  then show ?case by (simp add: advance_0)
next
  case (Cons i "is")
  define row where "row = map (Pair i) (range8 width)"
  define rest where "rest = concat (map (\<lambda>i. map (\<lambda>j. (i, j)) (range8 width)) is)"
  define y1 where "y1 = write_blocks dct idct (zip row (bitstream_iterator st)) y"
  define st1 where "st1 = advance (length row) st"
  have row1: "embed_row dct idct i (range8 width) y st = (y1, st1)"
    by (simp add: embed_row_write y1_def st1_def row_def)
  have split: "concat (map (\<lambda>i. map (\<lambda>j. (i, j)) (range8 width)) (i # is)) = row @ rest"
    by (simp add: row_def rest_def)
  have it1: "bitstream_iterator st1 = drop (length row) (bitstream_iterator st)"
    by (simp add: st1_def advance_def)
  have "(if embedding_complete st1 then (y1, st1) else embed_rows dct idct width is y1 st1)
      = (write_blocks dct idct (zip (row @ rest) (bitstream_iterator st)) y,
         advance (length (row @ rest)) st)"
  proof (cases "embedding_complete st1")
    case True
    from advance_complete [OF True [unfolded st1_def] Cons.prems, of "length rest"]
    show ?thesis using True
      by (simp add: zip_append_left write_blocks_append y1_def st1_def)
  next
    case False
    have "embed_rows dct idct width is y1 st1 =
        (write_blocks dct idct (zip rest (bitstream_iterator st1)) y1, advance (length rest) st1)"
      unfolding rest_def by (rule Cons.IH [OF False])
    with False show ?thesis
      using advance_advance [OF False [unfolded st1_def], of "length rest"]
      by (simp add: zip_append_left write_blocks_append y1_def st1_def iterator_advance)
  qed
  then show ?case
    by (simp only: embed_rows.simps row1 split prod.case)
qed

lemma embed_frames_write:
  assumes "embedding_complete st \<longrightarrow> bitstream_iterator st = []"
  shows "fst (embed_frames dct idct width height frames st) =
     write_frames dct idct width height frames (bitstream_iterator st)"
  using assms
proof (induction frames arbitrary: st)
  case Nil
  then show ?case by simp
next
  case (Cons frame frames)
  show ?case
  proof (cases "embedding_complete st")
    case True
    with Cons.prems have e: "bitstream_iterator st = []" by simp
    with True Cons.IH [of st] Cons.prems show ?thesis
      by (cases "embed_frames dct idct width height frames st") simp
  next
    case False
    define st1 where "st1 = advance (length (positions width height)) st"
    have rows: "embed_rows dct idct width (range8 height) frame st =
        (write_blocks dct idct (zip (positions width height) (bitstream_iterator st)) frame, st1)"
      using embed_rows_write [OF False] by (simp add: positions_def st1_def)
    have inv: "embedding_complete st1 \<longrightarrow> bitstream_iterator st1 = []"
      using False by (simp add: st1_def advance_def)
    have it: "bitstream_iterator st1 = drop (length (positions width height)) (bitstream_iterator st)"
      by (simp add: st1_def advance_def)
    from Cons.IH [OF inv] False rows it show ?thesis
      by (cases "embed_frames dct idct width height frames st1") simp
  qed
qed

lemma length_write_frames: "length (write_frames dct idct width height frames bits) = length frames"
  by (induction frames arbitrary: bits) simp_all

lemma nth_write_frames:
  assumes "k < length frames"
  shows "write_frames dct idct width height frames bits ! k =
     write_blocks dct idct
       (zip (positions width height) (drop (k * length (positions width height)) bits)) (frames ! k)"
  using assms
proof (induction frames arbitrary: bits k)
  case Nil
  then show ?case by simp
next
  case (Cons frame frames)
  then show ?case
    by (cases k) (simp_all add: add.commute)
qed

lemma length_range8: "length (range8 n) = (n + 7) div 8"
  by (simp add: range8_def)

lemma nth_range8: "k < length (range8 n) \<Longrightarrow> range8 n ! k = 8 * k"
  by (simp add: range8_def)

lemma range8_member: "x \<in> set (range8 n) \<longleftrightarrow> 8 dvd x \<and> x < n"
proof
  assume "x \<in> set (range8 n)"
  then obtain k where "x = 8 * k" "k < (n + 7) div 8" by (auto simp add: range8_def)
  then show "8 dvd x \<and> x < n" by auto
next
  assume a: "8 dvd x \<and> x < n"
  then obtain k where k: "x = 8 * k" by (auto simp add: dvd_def)
  with a have "k < (n + 7) div 8" by auto
  with k show "x \<in> set (range8 n)" by (auto simp add: range8_def)
qed

lemma distinct_range8: "distinct (range8 n)"
  by (simp add: range8_def distinct_map inj_on_def)

lemma positions_product: "positions width height = List.product (range8 height) (range8 width)"
  by (simp add: positions_def product_concat_map)

lemma length_positions:
  "length (positions width height) = length (range8 height) * length (range8 width)"
  by (simp add: positions_product)

lemma distinct_positions: "distinct (positions width height)"
  by (simp add: positions_product distinct_product distinct_range8)

lemma set_positions:
  "set (positions width height) = set (range8 height) \<times> set (range8 width)"
  by (simp add: positions_product)

lemma positions_index:
  assumes "i \<in> set (range8 height)" "j \<in> set (range8 width)"
  shows "(i div 8) * length (range8 width) + j div 8 < length (positions width height) \<and>
         positions width height ! ((i div 8) * length (range8 width) + j div 8) = (i, j)"
proof -
  from assms obtain a b where a: "i = 8 * a" "a < length (range8 height)"
    and b: "j = 8 * b" "b < length (range8 width)"
    by (auto simp add: range8_def)
  have "a * length (range8 width) + b < length (range8 height) * length (range8 width)"
  proof -
    have "a * length (range8 width) + b < a * length (range8 width) + length (range8 width)"
      using b(2) by simp
    also have "\<dots> = Suc a * length (range8 width)" by simp
    also have "\<dots> \<le> length (range8 height) * length (range8 width)"
      using a(2) by (intro mult_le_mono1) simp
    finally show ?thesis .
  qed
  moreover have "(a * length (range8 width) + b) div length (range8 width) = a"
    "(a * length (range8 width) + b) mod length (range8 width) = b"
  proof -
    from b(2) have "length (range8 width) \<noteq> 0" by auto
    with b(2) show "(a * length (range8 width) + b) div length (range8 width) = a"
      "(a * length (range8 width) + b) mod length (range8 width) = b"
      by simp_all
  qed
  ultimately show ?thesis
    using a b by (simp add: positions_product product_nth nth_range8)
qed

lemma nth_not_in_take:
  assumes "distinct xs" "n < length xs" "m \<le> n"
  shows "xs ! n \<notin> set (take m xs)"
proof
  assume "xs ! n \<in> set (take m xs)"
  then obtain q where q: "q < length (take m xs)" "take m xs ! q = xs ! n"
    by (auto simp add: in_set_conv_nth)
  then have "q < m" "q < length xs" "xs ! q = xs ! n" by simp_all
  with assms show False
    by (simp add: nth_eq_iff_index_eq)
qed

lemma fst_set_zip: "fst ` set (zip xs ys) \<subseteq> set (take (length ys) xs)"
proof
  fix x
  assume "x \<in> fst ` set (zip xs ys)"
  then obtain y where "(x, y) \<in> set (zip xs ys)" by auto
  then obtain n where n: "xs ! n = x" "n < length xs" "n < length ys"
    by (auto simp add: in_set_zip)
  then have "take (length ys) xs ! n = x" "n < length (take (length ys) xs)" by simp_all
  then show "x \<in> set (take (length ys) xs)"
    by (metis nth_mem)
qed

lemma write_blocks_other:
  assumes "(i, j) \<notin> fst ` set zs" "8 dvd i" "8 dvd j"
    and "\<forall>p \<in> fst ` set zs. 8 dvd fst p \<and> 8 dvd snd p"
  shows "get_block (write_blocks dct idct zs y) i j = get_block y i j"
  using assms
proof (induction zs arbitrary: y)
  case Nil
  then show ?case by simp
next
  case (Cons z zs)
  obtain i' j' b where z: "z = ((i', j'), b)" by (cases z) auto
  from Cons.prems z have ne: "(i, j) \<noteq> (i', j')" and d: "8 dvd i'" "8 dvd j'" by auto
  from Cons.prems have "get_block (write_blocks dct idct zs (set_block y i' j' (embed_block dct idct b (get_block y i' j')))) i j
      = get_block (set_block y i' j' (embed_block dct idct b (get_block y i' j'))) i j"
    by (intro Cons.IH) auto
  also have "\<dots> = get_block y i j"
    using Cons.prems(2,3) d ne by (rule get_block_set_block_other)
  finally show ?case by (simp add: z)
qed

lemma positions_dvd:
  "\<forall>p \<in> fst ` set (zip (positions width height) bs). 8 dvd fst p \<and> 8 dvd snd p"
proof
  fix p
  assume "p \<in> fst ` set (zip (positions width height) bs)"
  with fst_set_zip [of "positions width height" bs]
  have "p \<in> set (take (length bs) (positions width height))" by blast
  then have "p \<in> set (positions width height)"
    by (rule in_set_takeD)
  then have "fst p \<in> set (range8 height) \<and> snd p \<in> set (range8 width)"
    by (simp add: set_positions mem_Times_iff)
  then show "8 dvd fst p \<and> 8 dvd snd p"
    by (simp add: range8_member)
qed

lemma embed_written:
  assumes "embed_frames dct idct width height frames
      \<lparr>bitstream_iterator = bitstream, bits_embedded = 0, embedding_complete = False\<rparr> = (written, st)"
  shows "written = write_frames dct idct width height frames bitstream"
  using embed_frames_write [of "\<lparr>bitstream_iterator = bitstream, bits_embedded = 0, embedding_complete = False\<rparr>"
      dct idct width height frames] assms
  by simp

lemma frame_ok_flat: "frame_ok width height (flat_plane width height v)"
  by (simp add: frame_ok_def flat_plane_def)

lemma range8_16: "range8 16 = [0, 8]"
  by (simp add: range8_def upt_rec)

text \<open>
  Claim C9.  The frames written by \<open>embed\<close> for a bitstream of \<open>n\<close> bits, when every frame
  has \<open>height\<close> rows of \<open>width\<close> samples and \<open>width\<close> and \<open>height\<close> are multiples of 8 (every
  block is then 8 by 8, the index of line 79 is in range and no block raises): every frame
  is written; a block whose place in the scan order (frames in order, rows of blocks top to
  bottom, blocks left to right) is \<open>n\<close> or later is written as it was read; and a frame all
  of whose blocks come at place \<open>n\<close> or later is written exactly as read.
\<close>

theorem embed_passes_through_after_exhaustion:
  assumes "8 dvd width" and "8 dvd height"
    and "\<forall>frame \<in> set frames. frame_ok width height frame"
    and "embed_frames dct idct width height frames
      \<lparr>bitstream_iterator = bitstream, bits_embedded = 0, embedding_complete = False\<rparr> = (written, st)"
    and "k < length frames"
  shows "length written = length frames \<and>
    (\<forall>i \<in> set (range8 height). \<forall>j \<in> set (range8 width).
       length bitstream \<le> (k * length (range8 height) + i div 8) * length (range8 width) + j div 8 \<longrightarrow>
       get_block (written ! k) i j = get_block (frames ! k) i j) \<and>
    (length bitstream \<le> k * (length (range8 height) * length (range8 width)) \<longrightarrow>
       written ! k = frames ! k)"
proof -
  define ps where "ps = positions width height"
  have w: "written = write_frames dct idct width height frames bitstream"
    using assms(4) by (rule embed_written)
  have wk: "written ! k = write_blocks dct idct (zip ps (drop (k * length ps) bitstream)) (frames ! k)"
    unfolding w ps_def using assms(5) by (rule nth_write_frames)
  have P: "length ps = length (range8 height) * length (range8 width)"
    by (simp add: ps_def length_positions)
  have len: "length written = length frames"
    by (simp add: w length_write_frames)
  have blocks: "get_block (written ! k) i j = get_block (frames ! k) i j"
    if i: "i \<in> set (range8 height)" and j: "j \<in> set (range8 width)"
      and le: "length bitstream \<le> (k * length (range8 height) + i div 8) * length (range8 width) + j div 8"
    for i j
  proof -
    define n where "n = (i div 8) * length (range8 width) + j div 8"
    from positions_index [OF i j] have n: "n < length ps" "ps ! n = (i, j)"
      by (simp_all add: n_def ps_def)
    have "(k * length (range8 height) + i div 8) * length (range8 width) + j div 8 = k * length ps + n"
      by (simp add: n_def P algebra_simps)
    with le have "length (drop (k * length ps) bitstream) \<le> n" by simp
    then have "ps ! n \<notin> set (take (length (drop (k * length ps) bitstream)) ps)"
      using distinct_positions [of width height] n(1) unfolding ps_def [symmetric]
      by (intro nth_not_in_take) 
    then have notin: "(i, j) \<notin> fst ` set (zip ps (drop (k * length ps) bitstream))"
      using fst_set_zip [of ps "drop (k * length ps) bitstream"] n(2) by auto
    from i j have d: "8 dvd i" "8 dvd j" by (simp_all add: range8_member)
    show ?thesis
      unfolding wk using notin d positions_dvd [of width height, folded ps_def]
      by (rule write_blocks_other)
  qed
  have whole: "written ! k = frames ! k"
    if "length bitstream \<le> k * (length (range8 height) * length (range8 width))"
    using that by (simp add: wk P)
  from len blocks whole show ?thesis by blast
qed

theorem embed_passes_through_after_exhaustion_witness:
  "\<exists>written st.
     embed_frames cv2_dct cv2_idct 16 8 [flat_plane 16 8 100, flat_plane 16 8 50]
       \<lparr>bitstream_iterator = [True], bits_embedded = 0, embedding_complete = False\<rparr> = (written, st) \<and>
     length written = 2 \<and>
     get_block (written ! 0) 0 8 = get_block (flat_plane 16 8 100) 0 8 \<and>
     written ! 1 = flat_plane 16 8 50"
proof -
  obtain written st where e:
    "embed_frames cv2_dct cv2_idct 16 8 [flat_plane 16 8 100, flat_plane 16 8 50]
       \<lparr>bitstream_iterator = [True], bits_embedded = 0, embedding_complete = False\<rparr> = (written, st)"
    by (cases "embed_frames cv2_dct cv2_idct 16 8 [flat_plane 16 8 100, flat_plane 16 8 50]
       \<lparr>bitstream_iterator = [True], bits_embedded = 0, embedding_complete = False\<rparr>")
  have w: "8 dvd (16::nat)" and h: "8 dvd (8::nat)" by simp_all
  have ok: "\<forall>frame \<in> set [flat_plane 16 8 100, flat_plane 16 8 50]. frame_ok 16 8 frame"
    by (simp add: frame_ok_flat)
  have k0: "0 < length [flat_plane 16 8 100, flat_plane 16 8 50]"
    and k1: "1 < length [flat_plane 16 8 100, flat_plane 16 8 50]" by simp_all
  from embed_passes_through_after_exhaustion [OF w h ok e k0]
  have a: "length written = 2 \<and> get_block (written ! 0) 0 8 = get_block (flat_plane 16 8 100) 0 8"
    by (simp add: range8_8 range8_16)
  from embed_passes_through_after_exhaustion [OF w h ok e k1]
  have b: "written ! 1 = flat_plane 16 8 50"
    by (simp add: range8_8 range8_16)
  from e a b show ?thesis by blast
qed

section \<open>Round trip\<close>

lemma zero8: "replicate 8 (replicate 8 z) =
  [[z, z, z, z, z, z, z, z], [z, z, z, z, z, z, z, z], [z, z, z, z, z, z, z, z],
   [z, z, z, z, z, z, z, z], [z, z, z, z, z, z, z, z], [z, z, z, z, z, z, z, z],
   [z, z, z, z, z, z, z, z], [z, z, z, z, z, z, z, z]]"
  by (simp add: numeral_eq_Suc)

lemma carrier_False: "carrier_plane False = replicate 8 (replicate 8 0)"
  by (simp add: carrier_plane_def numeral_eq_Suc)

lemma dct_zero: "cv2_dct (astype_float32 (carrier_plane False)) = replicate 8 (replicate 8 0)"
  unfolding carrier_False zero8
  by (simp add: astype_float32_def cv2_dct_def Let_def upt8)

lemma basis_bound:
  assumes "u \<noteq> 0"
  shows "\<bar>dct_basis 8 u i\<bar> \<le> 1 / 2"
proof -
  define c where "c = cos (real (2 * i + 1) * real u * pi / real (2 * 8))"
  have "dct_basis 8 u i = sqrt (2 / 8) * c"
    using assms by (simp add: dct_basis_def c_def)
  then have "dct_basis 8 u i = 1 / 2 * c"
    by (simp only: sqrt_quarter)
  then have "\<bar>dct_basis 8 u i\<bar> = 1 / 2 * \<bar>c\<bar>"
    by (simp add: abs_mult)
  moreover have "\<bar>c\<bar> \<le> 1"
    unfolding c_def by (rule abs_cos_le_one)
  ultimately show ?thesis by linarith
qed

lemma idct_nth:
  assumes "length y = 8" "length (hd y) = 8" "i < 8" "j < 8"
  shows "cv2_idct y ! i ! j =
     (\<Sum>u\<leftarrow>[0..<8]. \<Sum>v\<leftarrow>[0..<8]. dct_basis 8 u i * dct_basis 8 v j * y ! u ! v)"
  using assms by (simp add: cv2_idct_def Let_def)

lemma idct_single:
  assumes "i < 8" "j < 8"
  shows "cv2_idct (coeff_update (replicate 8 (replicate 8 0)) v) ! i ! j
       = dct_basis 8 2 i * dct_basis 8 1 j * v"
proof -
  define y where "y = coeff_update (replicate 8 (replicate 8 0)) v"
  have y: "y = [[0, 0, 0, 0, 0, 0, 0, 0], [0, 0, 0, 0, 0, 0, 0, 0], [0, v, 0, 0, 0, 0, 0, 0],
     [0, 0, 0, 0, 0, 0, 0, 0], [0, 0, 0, 0, 0, 0, 0, 0], [0, 0, 0, 0, 0, 0, 0, 0],
     [0, 0, 0, 0, 0, 0, 0, 0], [0, 0, 0, 0, 0, 0, 0, 0]]"
    unfolding y_def zero8 by (simp add: coeff_update_def DCT_COORDINATE_def)
  have "cv2_idct y ! i ! j =
     (\<Sum>u\<leftarrow>[0..<8]. \<Sum>v\<leftarrow>[0..<8]. dct_basis 8 u i * dct_basis 8 v j * y ! u ! v)"
    using assms by (intro idct_nth) (simp_all add: y)
  also have "\<dots> = dct_basis 8 2 i * dct_basis 8 1 j * v"
    by (simp add: y upt8)
  finally show ?thesis by (simp add: y_def)
qed

lemma length_idct: "length (cv2_idct y) = length y"
  by (simp add: cv2_idct_def Let_def)

lemma length_idct_row: "i < length y \<Longrightarrow> length (cv2_idct y ! i) = length (hd y)"
  by (simp add: cv2_idct_def Let_def)

lemma clip_small: "\<bar>x\<bar> < 1 \<Longrightarrow> nat \<lfloor>min (max x 0) 255\<rfloor> = 0" for x :: real
proof -
  assume "\<bar>x\<bar> < 1"
  then have "0 \<le> min (max x 0) 255" "min (max x 0) 255 < 1" by auto
  then have "\<lfloor>min (max x 0) 255\<rfloor> = 0" by (simp add: floor_eq_iff)
  then show ?thesis by simp
qed

lemma embed_block_zero:
  "embed_block cv2_dct cv2_idct b (carrier_plane False) = carrier_plane False"
proof -
  define v where "v = encode (coeff_at (cv2_dct (astype_float32 (carrier_plane False)))) b"
  define y where "y = coeff_update (replicate 8 (replicate 8 0)) v"
  have v: "\<bar>v\<bar> \<le> 2"
    by (cases b) (simp_all add: v_def dct_zero coeff_at_def DCT_COORDINATE_def encode_def
        QUANTIZATION_STEP_def py_round_def Let_def)
  have ly: "length y = 8" "length (hd y) = 8"
    unfolding y_def zero8 by (simp_all add: coeff_update_def DCT_COORDINATE_def)
  have small: "\<bar>cv2_idct y ! i ! j\<bar> < 1" if "i < 8" "j < 8" for i j
  proof -
    have b2: "\<bar>dct_basis 8 2 i\<bar> \<le> 1 / 2" and b1: "\<bar>dct_basis 8 1 j\<bar> \<le> 1 / 2"
      by (rule basis_bound, simp)+
    from b2 b1 have "\<bar>dct_basis 8 2 i\<bar> * \<bar>dct_basis 8 1 j\<bar> \<le> 1 / 2 * (1 / 2)"
      by (rule mult_mono) simp_all
    from this v have "\<bar>dct_basis 8 2 i\<bar> * \<bar>dct_basis 8 1 j\<bar> * \<bar>v\<bar> \<le> 1 / 2 * (1 / 2) * 2"
      by (rule mult_mono) simp_all
    then have "\<bar>dct_basis 8 2 i * dct_basis 8 1 j * v\<bar> < 1"
      by (simp only: abs_mult)
    then show ?thesis
      unfolding y_def idct_single [OF that] .
  qed
  have "clip_astype_uint8 (cv2_idct y) = replicate 8 (replicate 8 0)"
  proof (rule nth_equalityI)
    show "length (clip_astype_uint8 (cv2_idct y)) = length (replicate 8 (replicate 8 (0::nat)))"
      by (simp add: clip_astype_uint8_def length_idct ly)
  next
    fix i
    assume "i < length (clip_astype_uint8 (cv2_idct y))"
    then have i: "i < 8" by (simp add: clip_astype_uint8_def length_idct ly)
    have "map (\<lambda>x. nat \<lfloor>min (max x 0) 255\<rfloor>) (cv2_idct y ! i) = replicate 8 0"
    proof (rule nth_equalityI)
      show "length (map (\<lambda>x. nat \<lfloor>min (max x 0) 255\<rfloor>) (cv2_idct y ! i)) = length (replicate 8 (0::nat))"
        using i by (simp add: length_idct_row ly)
    next
      fix j
      assume "j < length (map (\<lambda>x. nat \<lfloor>min (max x 0) 255\<rfloor>) (cv2_idct y ! i))"
      then have j: "j < 8" using i by (simp add: length_idct_row ly)
      with i have "j < length (cv2_idct y ! i)" by (simp add: length_idct_row ly)
      with clip_small [OF small [OF i j]] j
      show "map (\<lambda>x. nat \<lfloor>min (max x 0) 255\<rfloor>) (cv2_idct y ! i) ! j = replicate 8 0 ! j"
        by simp
    qed
    with i show "clip_astype_uint8 (cv2_idct y) ! i = replicate 8 (replicate 8 0) ! i"
      by (simp add: clip_astype_uint8_def length_idct ly)
  qed
  then show ?thesis
    by (simp add: embed_block_def Let_def dct_zero y_def v_def carrier_False [symmetric])
qed

lemma positions_8: "positions 8 8 = [(0, 0)]"
  by (simp add: positions_def range8_8)

lemma set_block_zero:
  "set_block (carrier_plane False) 0 0 (carrier_plane False) = carrier_plane False"
  unfolding carrier_False zero8
  by (simp add: set_block_def upt8)

lemma write_blocks_zero:
  "write_blocks cv2_dct cv2_idct (zip (positions 8 8) bs) (carrier_plane False) = carrier_plane False"
  by (cases bs) (simp_all add: positions_8 get_block_carrier embed_block_zero set_block_zero)

lemma write_frames_zero:
  "write_frames cv2_dct cv2_idct 8 8 (replicate n (carrier_plane False)) bs
     = replicate n (carrier_plane False)"
  by (induction n arbitrary: bs) (simp_all add: write_blocks_zero)

lemma scan_zero_120:
  "scan_frames (map (\<lambda>b. [b]) (replicate 120 False))
       \<lparr>extracted_bits = [], total_bits_to_extract = None, extraction_failed = False\<rparr>
   = \<lparr>extracted_bits = replicate 120 False, total_bits_to_extract = None, extraction_failed = True\<rparr>"
  by code_simp

subsection \<open>The library transform on a grey block\<close>

lemma basis_row0: "dct_basis 8 0 i = sqrt (1 / 8)"
  by (simp add: dct_basis_def)

lemma basis_pos:
  assumes "u \<noteq> 0"
  shows "dct_basis 8 u i = 1 / 2 * cos (real (2 * i + 1) * (real u * pi / 16))"
proof -
  have "dct_basis 8 u i = sqrt (2 / 8) * cos (real (2 * i + 1) * real u * pi / real (2 * 8))"
    using assms by (simp add: dct_basis_def)
  also have "real (2 * i + 1) * real u * pi / real (2 * 8) = real (2 * i + 1) * (real u * pi / 16)"
    by simp
  finally show ?thesis by (simp only: sqrt_quarter)
qed

lemma cos_odd_sum_telescope:
  "2 * sin x * (\<Sum>i = 0..<n. cos (real (2 * i + 1) * x)) = sin (2 * real n * x)"
proof (induction n)
  case 0
  then show ?case by simp
next
  case (Suc n)
  have "2 * sin x * cos (real (2 * n + 1) * x)
      = sin (x + real (2 * n + 1) * x) + sin (x - real (2 * n + 1) * x)"
    using sin_times_cos [of x "real (2 * n + 1) * x"] by simp
  also have "x + real (2 * n + 1) * x = 2 * real (Suc n) * x"
    by (simp add: algebra_simps)
  also have "x - real (2 * n + 1) * x = - (2 * real n * x)"
    by (simp add: algebra_simps)
  finally have step: "2 * sin x * cos (real (2 * n + 1) * x)
      = sin (2 * real (Suc n) * x) - sin (2 * real n * x)"
    by simp
  have "2 * sin x * (\<Sum>i = 0..<Suc n. cos (real (2 * i + 1) * x))
      = 2 * sin x * (\<Sum>i = 0..<n. cos (real (2 * i + 1) * x)) + 2 * sin x * cos (real (2 * n + 1) * x)"
    by (simp add: algebra_simps)
  also have "\<dots> = sin (2 * real (Suc n) * x)"
    by (simp only: Suc.IH step)
  finally show ?case .
qed

lemma basis_row_sum:
  assumes "0 < u" "u < 16"
  shows "(\<Sum>i = 0..<8. dct_basis 8 u i) = 0"
proof -
  define x where "x = real u * pi / 16"
  have x: "0 < x" "x < pi"
    using assms by (simp_all add: x_def)
  then have s: "sin x \<noteq> 0"
    using sin_gt_zero [of x] by simp
  have "2 * real 8 * x = real u * pi" by (simp add: x_def)
  then have "sin (2 * real 8 * x) = 0"
    by (simp only: sin_npi)
  with cos_odd_sum_telescope [of x 8] s have "(\<Sum>i = 0..<8. cos (real (2 * i + 1) * x)) = 0"
    by simp
  moreover have "(\<Sum>i = 0..<8. dct_basis 8 u i) = 1 / 2 * (\<Sum>i = 0..<8. cos (real (2 * i + 1) * x))"
    using assms by (simp only: sum_distrib_left basis_pos x_def)
  ultimately show ?thesis by simp
qed

lemma basis_row_sum_list:
  assumes "u < 8"
  shows "(\<Sum>i\<leftarrow>[0..<8]. dct_basis 8 u i) = (if u = 0 then 8 * sqrt (1 / 8) else 0)"
proof (cases "u = 0")
  case True
  then show ?thesis by (simp add: basis_row0 upt8)
next
  case False
  with assms basis_row_sum [of u] show ?thesis
    by (simp only: interv_sum_list_conv_sum_set_nat set_upt) simp
qed

lemma astype_flat: "astype_float32 (flat_plane 8 8 v) = replicate 8 (replicate 8 (real v))"
  by (simp add: astype_float32_def flat_plane_def)

lemma dct_flat_entry:
  assumes "u < 8" "v < 8"
  shows "(\<Sum>i\<leftarrow>[0..<8]. \<Sum>j\<leftarrow>[0..<8]. dct_basis 8 u i * dct_basis 8 v j * a)
       = (if u = 0 \<and> v = 0 then 8 * a else 0)"
proof -
  have "(\<Sum>i\<leftarrow>[0..<8]. \<Sum>j\<leftarrow>[0..<8]. dct_basis 8 u i * dct_basis 8 v j * a)
      = (\<Sum>i\<leftarrow>[0..<8]. dct_basis 8 u i * ((\<Sum>j\<leftarrow>[0..<8]. dct_basis 8 v j) * a))"
    by (simp only: sum_list_const_mult sum_list_mult_const mult.assoc)
  also have "\<dots> = (\<Sum>i\<leftarrow>[0..<8]. dct_basis 8 u i) * ((\<Sum>j\<leftarrow>[0..<8]. dct_basis 8 v j) * a)"
    by (simp only: sum_list_mult_const)
  also have "\<dots> = (if u = 0 \<and> v = 0 then 8 * a else 0)"
    using assms by (simp add: basis_row_sum_list)
  finally show ?thesis .
qed

lemma dct_flat:
  "cv2_dct (replicate 8 (replicate 8 a)) =
     [[8 * a, 0, 0, 0, 0, 0, 0, 0], [0, 0, 0, 0, 0, 0, 0, 0], [0, 0, 0, 0, 0, 0, 0, 0],
      [0, 0, 0, 0, 0, 0, 0, 0], [0, 0, 0, 0, 0, 0, 0, 0], [0, 0, 0, 0, 0, 0, 0, 0],
      [0, 0, 0, 0, 0, 0, 0, 0], [0, 0, 0, 0, 0, 0, 0, 0]]"
proof -
  have "cv2_dct (replicate 8 (replicate 8 a))
      = map (\<lambda>u. map (\<lambda>v. \<Sum>i\<leftarrow>[0..<8]. \<Sum>j\<leftarrow>[0..<8].
                 dct_basis 8 u i * dct_basis 8 v j * replicate 8 (replicate 8 a) ! i ! j) [0..<8]) [0..<8]"
    by (simp add: cv2_dct_def Let_def)
  also have "\<dots> = map (\<lambda>u. map (\<lambda>v. \<Sum>i\<leftarrow>[0..<8]. \<Sum>j\<leftarrow>[0..<8].
                 dct_basis 8 u i * dct_basis 8 v j * a) [0..<8]) [0..<8]"
    by (intro map_cong refl arg_cong [where f = sum_list]) simp
  also have "\<dots> = map (\<lambda>u. map (\<lambda>v. if u = 0 \<and> v = 0 then 8 * a else 0) [0..<8]) [0..<8]"
    by (intro map_cong refl) (simp add: dct_flat_entry)
  also have "\<dots> = [[8 * a, 0, 0, 0, 0, 0, 0, 0], [0, 0, 0, 0, 0, 0, 0, 0], [0, 0, 0, 0, 0, 0, 0, 0],
      [0, 0, 0, 0, 0, 0, 0, 0], [0, 0, 0, 0, 0, 0, 0, 0], [0, 0, 0, 0, 0, 0, 0, 0],
      [0, 0, 0, 0, 0, 0, 0, 0], [0, 0, 0, 0, 0, 0, 0, 0]]"
    by (simp add: upt8)
  finally show ?thesis .
qed

lemma idct_two:
  assumes "i < 8" "j < 8"
  shows "cv2_idct [[d, 0, 0, 0, 0, 0, 0, 0], [0, 0, 0, 0, 0, 0, 0, 0], [0, v, 0, 0, 0, 0, 0, 0],
      [0, 0, 0, 0, 0, 0, 0, 0], [0, 0, 0, 0, 0, 0, 0, 0], [0, 0, 0, 0, 0, 0, 0, 0],
      [0, 0, 0, 0, 0, 0, 0, 0], [0, 0, 0, 0, 0, 0, 0, 0]] ! i ! j
       = d / 8 + dct_basis 8 2 i * dct_basis 8 1 j * v"
proof -
  define y where "y = [[d, 0, 0, 0, 0, 0, 0, 0], [0, 0, 0, 0, 0, 0, 0, 0], [0, v, 0, 0, 0, 0, 0, 0],
      [0, 0, 0, 0, 0, 0, 0, 0], [0, 0, 0, 0, 0, 0, 0, 0], [0, 0, 0, 0, 0, 0, 0, 0],
      [0, 0, 0, 0, 0, 0, 0, 0], [0, 0, 0, 0, 0, 0, 0, (0::real)]]"
  have "cv2_idct y ! i ! j =
     (\<Sum>u\<leftarrow>[0..<8]. \<Sum>v\<leftarrow>[0..<8]. dct_basis 8 u i * dct_basis 8 v j * y ! u ! v)"
    using assms by (intro idct_nth) (simp_all add: y_def)
  also have "\<dots> = dct_basis 8 0 i * dct_basis 8 0 j * d + dct_basis 8 2 i * dct_basis 8 1 j * v"
    by (simp add: y_def upt8)
  also have "dct_basis 8 0 i * dct_basis 8 0 j * d = d / 8"
    by (simp only: basis_row0) simp
  finally show ?thesis by (simp only: y_def)
qed

lemma cos_neg_mid:
  assumes "pi / 2 < x" "x < 3 * pi / 2"
  shows "cos x < 0"
proof -
  have "0 < cos (x - pi)"
    using assms by (intro cos_gt_zero_pi) simp_all
  moreover have "cos ((x - pi) + pi) = - cos (x - pi)"
    by (rule cos_periodic_pi)
  ultimately show ?thesis by simp
qed

lemma cos_pos_high:
  assumes "3 * pi / 2 < x" "x < 5 * pi / 2"
  shows "0 < cos x"
proof -
  have "0 < cos (x - 2 * pi)"
    using assms by (intro cos_gt_zero_pi) simp_all
  moreover have "cos ((x - 2 * pi) + 2 * pi) = cos (x - 2 * pi)"
    by (rule cos_periodic)
  ultimately show ?thesis by simp
qed

lemma basis1_sign:
  assumes "j < 8"
  shows "if j < 4 then 0 < dct_basis 8 1 j else dct_basis 8 1 j < 0"
proof -
  have b: "dct_basis 8 1 j = 1 / 2 * cos (real (2 * j + 1) * (pi / 16))"
    using basis_pos [of 1 j] by simp
  from assms have "j \<in> {0, 1, 2, 3} \<or> j \<in> {4, 5, 6, 7}"
    by auto
  then show ?thesis
    unfolding b by (auto simp add: cos_gt_zero_pi cos_neg_mid)
qed

lemma basis2_sign:
  assumes "i < 8"
  shows "if i < 2 \<or> 6 \<le> i then 0 < dct_basis 8 2 i else dct_basis 8 2 i < 0"
proof -
  have b: "dct_basis 8 2 i = 1 / 2 * cos (real (2 * i + 1) * (pi / 8))"
    using basis_pos [of 2 i] by simp
  from assms have "i \<in> {0, 1} \<or> i \<in> {2, 3, 4, 5} \<or> i \<in> {6, 7}"
    by auto
  then show ?thesis
    unfolding b by (auto simp add: cos_gt_zero_pi cos_neg_mid cos_pos_high)
qed

lemma clip_idct_entries:
  assumes "length y = 8" "length (hd y) = 8"
    and "\<And>i j. i < 8 \<Longrightarrow> j < 8 \<Longrightarrow> nat \<lfloor>min (max (cv2_idct y ! i ! j) 0) 255\<rfloor> = w i j"
  shows "clip_astype_uint8 (cv2_idct y) = map (\<lambda>i. map (\<lambda>j. w i j) [0..<8]) [0..<8]"
proof -
  have "clip_astype_uint8 (cv2_idct y)
      = map (\<lambda>i. map (\<lambda>j. nat \<lfloor>min (max (\<Sum>u\<leftarrow>[0..<8]. \<Sum>v\<leftarrow>[0..<8].
                 dct_basis 8 u i * dct_basis 8 v j * y ! u ! v) 0) 255\<rfloor>) [0..<8]) [0..<8]"
    by (simp add: cv2_idct_def clip_astype_uint8_def Let_def assms(1,2) comp_def)
  also have "\<dots> = map (\<lambda>i. map (\<lambda>j. w i j) [0..<8]) [0..<8]"
  proof (intro map_cong refl)
    fix i j
    assume "i \<in> set [0..<8]" "j \<in> set [0..<8]"
    then have ij: "i < 8" "j < 8" by simp_all
    from assms(3) [OF ij] idct_nth [OF assms(1,2) ij]
    show "nat \<lfloor>min (max (\<Sum>u\<leftarrow>[0..<8]. \<Sum>v\<leftarrow>[0..<8].
                 dct_basis 8 u i * dct_basis 8 v j * y ! u ! v) 0) 255\<rfloor> = w i j"
      by simp
  qed
  finally show ?thesis .
qed

lemma encode_0: "encode 0 False = 0" "encode 0 True = 2"
  by (simp_all add: encode_def QUANTIZATION_STEP_def py_round_def Let_def)

lemma embed_block_grey_0:
  "embed_block cv2_dct cv2_idct False (flat_plane 8 8 128) = flat_plane 8 8 128"
proof -
  define y :: block where "y = [[8 * 128, 0, 0, 0, 0, 0, 0, 0], [0, 0, 0, 0, 0, 0, 0, 0],
      [0, 0, 0, 0, 0, 0, 0, 0], [0, 0, 0, 0, 0, 0, 0, 0], [0, 0, 0, 0, 0, 0, 0, 0],
      [0, 0, 0, 0, 0, 0, 0, 0], [0, 0, 0, 0, 0, 0, 0, 0], [0, 0, 0, 0, 0, 0, 0, 0]]"
  have d: "cv2_dct (astype_float32 (flat_plane 8 8 128)) = y"
    unfolding astype_flat y_def by (simp only: dct_flat of_nat_numeral)
  have c: "coeff_at y = 0"
    by (simp add: y_def coeff_at_def DCT_COORDINATE_def)
  have u: "coeff_update y 0 = y"
    by (simp add: y_def coeff_update_def DCT_COORDINATE_def)
  have eb: "embed_block cv2_dct cv2_idct False (flat_plane 8 8 128) = clip_astype_uint8 (cv2_idct y)"
    by (simp add: embed_block_def Let_def d c encode_0 u)
  have val: "nat \<lfloor>min (max (cv2_idct y ! i ! j) 0) 255\<rfloor> = 128" if "i < 8" "j < 8" for i j
    unfolding y_def idct_two [OF that] by simp
  have ly: "length y = 8" "length (hd y) = 8" by (simp_all add: y_def)
  have "clip_astype_uint8 (cv2_idct y) = map (\<lambda>i. map (\<lambda>j. 128) [0..<8]) [0..<8]"
    using ly val by (rule clip_idct_entries)
  also have "\<dots> = flat_plane 8 8 128"
    by (simp add: flat_plane_def upt8 numeral_eq_Suc)
  finally show ?thesis by (simp only: eb)
qed

lemma floor_above: "0 < s \<Longrightarrow> s < 1 \<Longrightarrow> nat \<lfloor>min (max (128 + s) 0) 255\<rfloor> = 128" for s :: real
proof -
  assume s: "0 < s" "s < 1"
  then have "min (max (128 + s) 0) 255 = 128 + s" by simp
  moreover have "\<lfloor>128 + s\<rfloor> = 128" using s by (simp add: floor_eq_iff)
  ultimately show ?thesis by simp
qed

lemma floor_below: "s < 0 \<Longrightarrow> - 1 < s \<Longrightarrow> nat \<lfloor>min (max (128 + s) 0) 255\<rfloor> = 127" for s :: real
proof -
  assume s: "s < 0" "- 1 < s"
  then have "min (max (128 + s) 0) 255 = 128 + s" by simp
  moreover have "\<lfloor>128 + s\<rfloor> = 127" using s by (intro floor_unique) simp_all
  ultimately show ?thesis by simp
qed

lemma embed_block_grey_1:
  "embed_block cv2_dct cv2_idct True (flat_plane 8 8 128) = dented_plane"
proof -
  define y :: block where "y = [[8 * 128, 0, 0, 0, 0, 0, 0, 0], [0, 0, 0, 0, 0, 0, 0, 0],
      [0, 0, 0, 0, 0, 0, 0, 0], [0, 0, 0, 0, 0, 0, 0, 0], [0, 0, 0, 0, 0, 0, 0, 0],
      [0, 0, 0, 0, 0, 0, 0, 0], [0, 0, 0, 0, 0, 0, 0, 0], [0, 0, 0, 0, 0, 0, 0, 0]]"
  define y' :: block where "y' = [[8 * 128, 0, 0, 0, 0, 0, 0, 0], [0, 0, 0, 0, 0, 0, 0, 0],
      [0, 2, 0, 0, 0, 0, 0, 0], [0, 0, 0, 0, 0, 0, 0, 0], [0, 0, 0, 0, 0, 0, 0, 0],
      [0, 0, 0, 0, 0, 0, 0, 0], [0, 0, 0, 0, 0, 0, 0, 0], [0, 0, 0, 0, 0, 0, 0, 0]]"
  have d: "cv2_dct (astype_float32 (flat_plane 8 8 128)) = y"
    unfolding astype_flat y_def by (simp only: dct_flat of_nat_numeral)
  have c: "coeff_at y = 0"
    by (simp add: y_def coeff_at_def DCT_COORDINATE_def)
  have u: "coeff_update y 2 = y'"
    by (simp add: y_def y'_def coeff_update_def DCT_COORDINATE_def)
  have eb: "embed_block cv2_dct cv2_idct True (flat_plane 8 8 128) = clip_astype_uint8 (cv2_idct y')"
    by (simp add: embed_block_def Let_def d c encode_0 u)
  have val: "nat \<lfloor>min (max (cv2_idct y' ! i ! j) 0) 255\<rfloor>
      = (if (i < 2 \<or> 6 \<le> i) = (j < 4) then 128 else 127)" if ij: "i < 8" "j < 8" for i j
  proof -
    define s where "s = dct_basis 8 2 i * dct_basis 8 1 j * 2"
    have yv: "cv2_idct y' ! i ! j = 128 + s"
      unfolding y'_def idct_two [OF ij] s_def by simp
    have b2: "\<bar>dct_basis 8 2 i\<bar> \<le> 1 / 2" and b1: "\<bar>dct_basis 8 1 j\<bar> \<le> 1 / 2"
      by (rule basis_bound, simp)+
    from b2 b1 have "\<bar>dct_basis 8 2 i\<bar> * \<bar>dct_basis 8 1 j\<bar> \<le> 1 / 2 * (1 / 2)"
      by (rule mult_mono) simp_all
    then have "\<bar>dct_basis 8 2 i * dct_basis 8 1 j\<bar> \<le> 1 / 4"
      by (simp only: abs_mult)
    then have small: "\<bar>s\<bar> < 1"
      by (simp add: s_def abs_mult)
    show ?thesis
    proof (cases "(i < 2 \<or> 6 \<le> i) = (j < 4)")
      case True
      with basis2_sign [OF ij(1)] basis1_sign [OF ij(2)]
      have "0 < dct_basis 8 2 i * dct_basis 8 1 j"
        by (auto simp add: zero_less_mult_iff split: if_splits)
      then have "0 < s" unfolding s_def by linarith
      with small have "nat \<lfloor>min (max (128 + s) 0) 255\<rfloor> = 128"
        by (intro floor_above) simp_all
      with True show ?thesis by (simp only: yv) simp
    next
      case False
      with basis2_sign [OF ij(1)] basis1_sign [OF ij(2)]
      have "dct_basis 8 2 i * dct_basis 8 1 j < 0"
        by (auto simp add: mult_less_0_iff split: if_splits)
      then have "s < 0" unfolding s_def by linarith
      with small have "nat \<lfloor>min (max (128 + s) 0) 255\<rfloor> = 127"
        by (intro floor_below) simp_all
      with False show ?thesis by (simp only: yv) simp
    qed
  qed
  have ly: "length y' = 8" "length (hd y') = 8" by (simp_all add: y'_def)
  have "clip_astype_uint8 (cv2_idct y')
      = map (\<lambda>i. map (\<lambda>j. if (i < 2 \<or> 6 \<le> i) = (j < 4) then 128 else 127) [0..<8]) [0..<8]"
    using ly val by (rule clip_idct_entries)
  also have "\<dots> = dented_plane"
    by (simp add: dented_plane_def upt8)
  finally show ?thesis by (simp only: eb)
qed

lemma dct_nth:
  assumes "length x = 8" "length (hd x) = 8" "u < 8" "v < 8"
  shows "cv2_dct x ! u ! v =
     (\<Sum>i\<leftarrow>[0..<8]. \<Sum>j\<leftarrow>[0..<8]. dct_basis 8 u i * dct_basis 8 v j * x ! i ! j)"
  using assms by (simp add: cv2_dct_def Let_def)

lemma basis_rows_expanded:
  assumes "0 < u" "u < 8"
  shows "dct_basis 8 u 7 = - (dct_basis 8 u 0 + dct_basis 8 u 1 + dct_basis 8 u 2 + dct_basis 8 u 3
           + dct_basis 8 u 4 + dct_basis 8 u 5 + dct_basis 8 u 6)"
proof -
  from assms have "(\<Sum>i\<leftarrow>[0..<8]. dct_basis 8 u i) = 0"
    by (simp add: basis_row_sum_list)
  then show ?thesis
    by (simp add: upt8)
qed

lemma coeff_dented:
  "coeff_at (cv2_dct (astype_float32 dented_plane))
     = 2 * (dct_basis 8 1 0 + dct_basis 8 1 1 + dct_basis 8 1 2 + dct_basis 8 1 3)
         * (dct_basis 8 2 0 + dct_basis 8 2 1 + dct_basis 8 2 6 + dct_basis 8 2 7)"
proof -
  define x where "x = astype_float32 dented_plane"
  define b where "b = dct_basis 8 1"
  define t where "t = dct_basis 8 2"
  have b7: "b 7 = - (b 0 + b 1 + b 2 + b 3 + b 4 + b 5 + b 6)"
    unfolding b_def by (rule basis_rows_expanded) simp_all
  have t7: "t 7 = - (t 0 + t 1 + t 2 + t 3 + t 4 + t 5 + t 6)"
    unfolding t_def by (rule basis_rows_expanded) simp_all
  have "coeff_at (cv2_dct x) = (\<Sum>i\<leftarrow>[0..<8]. \<Sum>j\<leftarrow>[0..<8]. t i * b j * x ! i ! j)"
    unfolding coeff_at_def DCT_COORDINATE_def fst_conv snd_conv t_def b_def
    by (rule dct_nth) (simp_all add: x_def dented_plane_def astype_float32_def)
  also have "\<dots> = 2 * (b 0 + b 1 + b 2 + b 3) * (t 0 + t 1 + t 6 + t 7)"
    by (simp add: upt8 x_def dented_plane_def astype_float32_def b7 t7 algebra_simps)
  finally show ?thesis
    by (simp only: x_def b_def t_def)
qed

lemma cos_sums:
  "cos (pi / 16) + cos (3 * pi / 16) + cos (5 * pi / 16) + cos (7 * pi / 16)
     = 2 * sqrt 2 * cos (pi / 8) * cos (pi / 16)"
  "cos (pi / 8) + cos (3 * pi / 8) = sqrt 2 * cos (pi / 8)"
proof -
  define a1 where "a1 = cos (pi / 16)"
  define a3 where "a3 = cos (3 * pi / 16)"
  define a5 where "a5 = cos (5 * pi / 16)"
  define a7 where "a7 = cos (7 * pi / 16)"
  define d where "d = cos (pi / 8)"
  have q: "2 * cos (pi / 4) = sqrt 2"
    by (simp add: cos_45)
  have "a1 + a7 = 2 * cos (pi / 4) * a3"
    unfolding a1_def a7_def a3_def using cos_plus_cos [of "pi / 16" "7 * pi / 16"] by simp
  then have s17: "a1 + a7 = sqrt 2 * a3" by (simp only: q)
  have "a3 + a5 = 2 * cos (pi / 4) * a1"
    unfolding a1_def a5_def a3_def using cos_plus_cos [of "3 * pi / 16" "5 * pi / 16"] by simp
  then have s35: "a3 + a5 = sqrt 2 * a1" by (simp only: q)
  have s13: "a1 + a3 = 2 * d * a1"
    unfolding a1_def d_def a3_def using cos_plus_cos [of "pi / 16" "3 * pi / 16"] by simp
  have "a1 + a3 + a5 + a7 = (a1 + a7) + (a3 + a5)" by simp
  also have "\<dots> = sqrt 2 * (a1 + a3)"
    by (simp only: s17 s35) (simp add: algebra_simps)
  also have "\<dots> = 2 * sqrt 2 * d * a1"
    unfolding s13 by simp
  finally show "cos (pi / 16) + cos (3 * pi / 16) + cos (5 * pi / 16) + cos (7 * pi / 16)
     = 2 * sqrt 2 * cos (pi / 8) * cos (pi / 16)"
    by (simp only: a1_def a3_def a5_def a7_def d_def)
  have "cos (pi / 8) + cos (3 * pi / 8) = 2 * cos (pi / 4) * cos (pi / 8)"
    using cos_plus_cos [of "pi / 8" "3 * pi / 8"] by simp
  then show "cos (pi / 8) + cos (3 * pi / 8) = sqrt 2 * cos (pi / 8)"
    by (simp only: q)
qed

lemma cos_eighth_squared: "4 * (cos (pi / 8) * cos (pi / 8)) = 2 + sqrt 2"
proof -
  have "cos (2 * (pi / 8)) = 2 * (cos (pi / 8))\<^sup>2 - 1"
    by (rule cos_double_cos)
  moreover have "cos (2 * (pi / 8)) = sqrt 2 / 2"
    by (simp add: cos_45)
  ultimately show ?thesis
    by (simp add: power2_eq_square)
qed

lemma basis_sums:
  "dct_basis 8 1 0 + dct_basis 8 1 1 + dct_basis 8 1 2 + dct_basis 8 1 3
     = sqrt 2 * cos (pi / 8) * cos (pi / 16)"
  "dct_basis 8 2 0 + dct_basis 8 2 1 + dct_basis 8 2 6 + dct_basis 8 2 7 = sqrt 2 * cos (pi / 8)"
proof -
  have "dct_basis 8 1 0 + dct_basis 8 1 1 + dct_basis 8 1 2 + dct_basis 8 1 3
      = 1 / 2 * (cos (pi / 16) + cos (3 * pi / 16) + cos (5 * pi / 16) + cos (7 * pi / 16))"
    by (simp add: basis_pos)
  then show "dct_basis 8 1 0 + dct_basis 8 1 1 + dct_basis 8 1 2 + dct_basis 8 1 3
     = sqrt 2 * cos (pi / 8) * cos (pi / 16)"
    by (simp only: cos_sums)
  have a: "cos (13 * pi / 8) = cos (3 * pi / 8)"
  proof -
    have "cos (2 * pi - 3 * pi / 8) = cos (3 * pi / 8)"
      by (simp only: cos_diff) simp
    moreover have "2 * pi - 3 * pi / 8 = 13 * pi / 8" by simp
    ultimately show ?thesis by simp
  qed
  have b: "cos (15 * pi / 8) = cos (pi / 8)"
  proof -
    have "cos (2 * pi - pi / 8) = cos (pi / 8)"
      by (simp only: cos_diff) simp
    moreover have "2 * pi - pi / 8 = 15 * pi / 8" by simp
    ultimately show ?thesis by simp
  qed
  have "dct_basis 8 2 0 + dct_basis 8 2 1 + dct_basis 8 2 6 + dct_basis 8 2 7
      = 1 / 2 * (cos (pi / 8) + cos (3 * pi / 8) + cos (13 * pi / 8) + cos (15 * pi / 8))"
    by (simp add: basis_pos)
  also have "\<dots> = cos (pi / 8) + cos (3 * pi / 8)"
    by (simp only: a b) simp
  finally show "dct_basis 8 2 0 + dct_basis 8 2 1 + dct_basis 8 2 6 + dct_basis 8 2 7 = sqrt 2 * cos (pi / 8)"
    by (simp only: cos_sums)
qed

lemma coeff_dented_value:
  "coeff_at (cv2_dct (astype_float32 dented_plane)) = (2 + sqrt 2) * cos (pi / 16)"
proof -
  have "coeff_at (cv2_dct (astype_float32 dented_plane))
      = 2 * (sqrt 2 * cos (pi / 8) * cos (pi / 16)) * (sqrt 2 * cos (pi / 8))"
    by (simp only: coeff_dented basis_sums)
  also have "\<dots> = (sqrt 2 * sqrt 2) / 2 * (4 * (cos (pi / 8) * cos (pi / 8))) * cos (pi / 16)"
    by (simp add: algebra_simps)
  also have "\<dots> = (2 + sqrt 2) * cos (pi / 16)"
    by (simp only: cos_eighth_squared) simp
  finally show ?thesis .
qed

lemma coeff_dented_bounds:
  "3 < coeff_at (cv2_dct (astype_float32 dented_plane))"
  "coeff_at (cv2_dct (astype_float32 dented_plane)) < 4"
proof -
  define r where "r = sqrt 2"
  define d where "d = cos (pi / 8)"
  define c where "c = cos (pi / 16)"
  have r: "141 / 100 < r" "r < 2"
    unfolding r_def by (rule real_less_rsqrt, simp add: power2_eq_square) (rule sqrt2_less_2)
  have d2: "4 * (d * d) = 2 + r"
    unfolding d_def r_def by (rule cos_eighth_squared)
  have d0: "0 < d"
    unfolding d_def by (intro cos_gt_zero_pi) (use pi_gt_zero in simp_all)
  have d: "92 / 100 < d"
  proof (rule ccontr)
    assume "\<not> 92 / 100 < d"
    then have "d \<le> 92 / 100" by simp
    with d0 have "d * d \<le> 92 / 100 * (92 / 100)"
      by (intro mult_mono) simp_all
    with d2 r show False by simp
  qed
  have dc: "d < c"
    unfolding d_def c_def by (rule cos_monotone_0_pi) (use pi_gt_zero in simp_all)
  have c1: "c \<le> 1"
    unfolding c_def by (rule cos_le_one)
  have v: "coeff_at (cv2_dct (astype_float32 dented_plane)) = (2 + r) * c"
    unfolding r_def c_def by (rule coeff_dented_value)
  have "(2 + 141 / 100) * (92 / 100) < (2 + r) * c"
    using r d dc by (intro mult_strict_mono) simp_all
  then show "3 < coeff_at (cv2_dct (astype_float32 dented_plane))"
    unfolding v by simp
  have "(2 + r) * c \<le> (2 + r) * 1"
    using r c1 by (intro mult_left_mono) simp_all
  then have "(2 + r) * c \<le> 2 + r"
    by (simp only: mult.right_neutral)
  with r have "(2 + r) * c < 4"
    by (intro le_less_trans [of "(2 + r) * c" "2 + r" 4]) simp_all
  then show "coeff_at (cv2_dct (astype_float32 dented_plane)) < 4"
    unfolding v .
qed

lemma decode_near_four:
  assumes "3 < c" "c < 4"
  shows "decode c = False"
proof -
  have "\<bar>c / 4 - of_int 1\<bar> < 1 / 2" using assms by simp
  then have z: "py_round (c / 4) = 1" by (rule py_round_near)
  have "\<bar>(c - 2) / 4 - of_int 0\<bar> < 1 / 2" using assms by simp
  then have o: "py_round ((c - 2) / 4) = 0" by (rule py_round_near)
  show ?thesis
    using assms by (simp add: decode_def nearest_zero_def nearest_one_def QUANTIZATION_STEP_def z o)
qed

lemma block_bit_dented: "block_bit cv2_dct dented_plane 0 0 = False"
proof -
  have "get_block dented_plane 0 0 = dented_plane"
    by (simp add: get_block_def dented_plane_def)
  then show ?thesis
    using decode_near_four [OF coeff_dented_bounds]
    by (simp add: block_bit_def Let_def)
qed

lemma get_block_flat: "get_block (flat_plane 8 8 v) 0 0 = flat_plane 8 8 v"
  by (simp add: get_block_def flat_plane_def)

lemma block_bit_flat: "block_bit cv2_dct (flat_plane 8 8 128) 0 0 = False"
proof -
  have "coeff_at (cv2_dct (astype_float32 (flat_plane 8 8 128))) = 0"
    unfolding astype_flat dct_flat by (simp add: coeff_at_def DCT_COORDINATE_def)
  then show ?thesis
    by (simp add: block_bit_def Let_def get_block_flat decode_0)
qed

lemma set_block_grey:
  "set_block (flat_plane 8 8 128) 0 0 (flat_plane 8 8 128) = flat_plane 8 8 128"
  "set_block (flat_plane 8 8 128) 0 0 dented_plane = dented_plane"
  unfolding flat_plane_def zero8 dented_plane_def
  by (simp_all add: set_block_def upt8)

lemma write_blocks_grey:
  "write_blocks cv2_dct cv2_idct (zip (positions 8 8) (b # bs)) (flat_plane 8 8 128)
     = (if b then dented_plane else flat_plane 8 8 128)"
  by (simp add: positions_8 get_block_flat embed_block_grey_0 embed_block_grey_1 set_block_grey)

lemma write_frames_grey:
  "write_frames cv2_dct cv2_idct 8 8 (replicate (length bs) (flat_plane 8 8 128)) bs
     = map (\<lambda>b. if b then dented_plane else flat_plane 8 8 128) bs"
proof (induction bs)
  case Nil
  then show ?case by simp
next
  case (Cons b bs)
  have "length (positions 8 8) = 1" by (simp add: positions_8)
  with Cons show ?case
    by (simp add: write_blocks_grey del: write_blocks.simps)
qed

lemma frame_bits_grey:
  "frame_bits cv2_dct 8 8 (if b then dented_plane else flat_plane 8 8 128) = [False]"
  by (simp add: frame_bits_def range8_8 block_bit_dented block_bit_flat)

lemma extract_scan_grey:
  "extract_scan cv2_dct 8 8 (map (\<lambda>b. if b then dented_plane else flat_plane 8 8 128) bs) =
     scan_frames (map (\<lambda>b. [b]) (replicate (length bs) False))
       \<lparr>extracted_bits = [], total_bits_to_extract = None, extraction_failed = False\<rparr>"
proof -
  have "map (frame_bits cv2_dct 8 8) (map (\<lambda>b. if b then dented_plane else flat_plane 8 8 128) bs)
      = map (\<lambda>b. [b]) (replicate (length bs) False)"
    by (induction bs) (simp_all add: frame_bits_grey)
  then show ?thesis
    by (simp only: extract_scan_frames)
qed

lemma length_header_stream: "length (bytes_to_bits (MARKER @ [0, 0, 0, 0])) = 120"
  by (simp add: length_bytes_to_bits length_MARKER)

text \<open>
  Claim C1.  The round trip fails under the transforms of the library, on grey frames and
  on black frames: 120 frames of one block (a capacity of 120 bits) and the empty payload
  (120 bits of header).

  On a grey block, every sample 128, the coefficient is 0; for a bit 1 it is set to 2,
  which moves every sample by at most 1/2, up or down.  The cast of line 86 drops the
  fraction: the samples moved down become 127 and the others stay 128.  The coefficient of
  the block so written is \<open>(2 + sqrt 2) * cos (pi / 16)\<close>, between 3 and 4, nearer to the
  0-lattice point 4 than to the 1-lattice point 2, and the block reads as bit 0.  No block
  of the written frames reads as 1, and extraction ends with a marker mismatch instead of
  the payload.

  On a black block the clip also brings the samples moved down back to 0: the frames are
  written unchanged, and extraction ends in the same way.
\<close>

theorem round_trip_fails:
  "header_len_bits + 8 * length ([] :: byte list) \<le> 120 * ((8 div 8) * (8 div 8)) \<and>
   embed_block cv2_dct cv2_idct True (flat_plane 8 8 128) = dented_plane \<and>
   block_bit cv2_dct dented_plane 0 0 = False \<and>
   (\<exists>written st.
      embed cv2_dct cv2_idct 8 8 (replicate 120 (flat_plane 8 8 128)) [] = Inr (written, st) \<and>
      extract_fn cv2_dct 8 8 written = Inl MarkerMismatch \<and>
      extract_fn cv2_dct 8 8 written \<noteq> Inr []) \<and>
   (\<exists>written st.
      embed cv2_dct cv2_idct 8 8 (replicate 120 (carrier_plane False)) [] = Inr (written, st) \<and>
      written = replicate 120 (carrier_plane False) \<and>
      extract_fn cv2_dct 8 8 written = Inl MarkerMismatch \<and>
      extract_fn cv2_dct 8 8 written \<noteq> Inr [])"
proof -
  define bits where "bits = bytes_to_bits (MARKER @ [0, 0, 0, 0])"
  have lb: "length bits = 120"
    unfolding bits_def by (rule length_header_stream)
  have grey: "\<exists>written st.
      embed cv2_dct cv2_idct 8 8 (replicate 120 (flat_plane 8 8 128)) [] = Inr (written, st) \<and>
      extract_fn cv2_dct 8 8 written = Inl MarkerMismatch \<and>
      extract_fn cv2_dct 8 8 written \<noteq> Inr []"
  proof -
    obtain written st where e: "embed_frames cv2_dct cv2_idct 8 8 (replicate 120 (flat_plane 8 8 128))
        \<lparr>bitstream_iterator = bits, bits_embedded = 0, embedding_complete = False\<rparr> = (written, st)"
      by (cases "embed_frames cv2_dct cv2_idct 8 8 (replicate 120 (flat_plane 8 8 128))
        \<lparr>bitstream_iterator = bits, bits_embedded = 0, embedding_complete = False\<rparr>")
    then have emb: "embed cv2_dct cv2_idct 8 8 (replicate 120 (flat_plane 8 8 128)) [] = Inr (written, st)"
      by (simp add: embed_def serialize_empty bits_def)
    have "written = write_frames cv2_dct cv2_idct 8 8 (replicate (length bits) (flat_plane 8 8 128)) bits"
      using embed_written [OF e] by (simp only: lb)
    then have w: "written = map (\<lambda>b. if b then dented_plane else flat_plane 8 8 128) bits"
      by (simp only: write_frames_grey)
    have "extract_scan cv2_dct 8 8 written
        = \<lparr>extracted_bits = replicate 120 False, total_bits_to_extract = None, extraction_failed = True\<rparr>"
      unfolding w by (simp only: extract_scan_grey lb scan_zero_120)
    then have "extract_fn cv2_dct 8 8 written = Inl MarkerMismatch"
      by (simp add: extract_fn_def)
    with emb show ?thesis by simp
  qed
  have black: "\<exists>written st.
      embed cv2_dct cv2_idct 8 8 (replicate 120 (carrier_plane False)) [] = Inr (written, st) \<and>
      written = replicate 120 (carrier_plane False) \<and>
      extract_fn cv2_dct 8 8 written = Inl MarkerMismatch \<and>
      extract_fn cv2_dct 8 8 written \<noteq> Inr []"
  proof -
    obtain written st where e: "embed_frames cv2_dct cv2_idct 8 8 (replicate 120 (carrier_plane False))
        \<lparr>bitstream_iterator = bits, bits_embedded = 0, embedding_complete = False\<rparr> = (written, st)"
      by (cases "embed_frames cv2_dct cv2_idct 8 8 (replicate 120 (carrier_plane False))
        \<lparr>bitstream_iterator = bits, bits_embedded = 0, embedding_complete = False\<rparr>")
    then have emb: "embed cv2_dct cv2_idct 8 8 (replicate 120 (carrier_plane False)) [] = Inr (written, st)"
      by (simp add: embed_def serialize_empty bits_def)
    have w: "written = replicate 120 (carrier_plane False)"
      using embed_written [OF e] by (simp add: write_frames_zero)
    have "extract_scan cv2_dct 8 8 (map carrier_plane (replicate 120 False))
        = \<lparr>extracted_bits = replicate 120 False, total_bits_to_extract = None, extraction_failed = True\<rparr>"
      by (simp only: extract_scan_carrier scan_zero_120)
    then have "extract_fn cv2_dct 8 8 written = Inl MarkerMismatch"
      by (simp add: extract_fn_def w)
    with emb w show ?thesis by simp
  qed
  have cap: "header_len_bits + 8 * length ([] :: byte list) \<le> 120 * ((8 div 8) * (8 div 8))"
    by (simp add: header_len_bits_eq)
  from cap embed_block_grey_1 block_bit_dented grey black show ?thesis
    by (intro conjI)
qed

end
